theory Spec2Isabelle
  imports Complex_Main "HOL-Library.Log_Nat"
begin

section \<open>Tensor elements\<close>

text \<open>
  A tensor element is a floating-point value: NaN, one of the two infinities, or a
  finite value. The operations of this section give the exact result on the finite
  values; the rounding of a format is added to them in the section on rounded
  arithmetic below. The sign of zero is not modelled. A tensor is one-dimensional: the
  list of its elements.
\<close>

datatype fval = Fin real | PInf | NInf | NaN

type_synonym tensor = "fval list"

datatype error = IndexError | ValueError | RuntimeError | KeyError | NetworkXError

fun isnan :: "fval \<Rightarrow> bool" where
  "isnan NaN = True"
| "isnan _ = False"

fun fneg :: "fval \<Rightarrow> fval" where
  "fneg (Fin a) = Fin (- a)"
| "fneg PInf = NInf"
| "fneg NInf = PInf"
| "fneg NaN = NaN"

fun fadd :: "fval \<Rightarrow> fval \<Rightarrow> fval" where
  "fadd (Fin a) (Fin b) = Fin (a + b)"
| "fadd NaN _ = NaN"
| "fadd _ NaN = NaN"
| "fadd PInf NInf = NaN"
| "fadd NInf PInf = NaN"
| "fadd PInf _ = PInf"
| "fadd _ PInf = PInf"
| "fadd NInf _ = NInf"
| "fadd _ NInf = NInf"

definition fsub :: "fval \<Rightarrow> fval \<Rightarrow> fval" where
  "fsub a b = fadd a (fneg b)"

definition inf_of_sign :: "bool \<Rightarrow> fval" where
  "inf_of_sign pos = (if pos then PInf else NInf)"

fun fmul :: "fval \<Rightarrow> fval \<Rightarrow> fval" where
  "fmul (Fin a) (Fin b) = Fin (a * b)"
| "fmul NaN _ = NaN"
| "fmul _ NaN = NaN"
| "fmul PInf (Fin b) = (if b = 0 then NaN else inf_of_sign (0 < b))"
| "fmul NInf (Fin b) = (if b = 0 then NaN else inf_of_sign (b < 0))"
| "fmul (Fin a) PInf = (if a = 0 then NaN else inf_of_sign (0 < a))"
| "fmul (Fin a) NInf = (if a = 0 then NaN else inf_of_sign (a < 0))"
| "fmul PInf PInf = PInf"
| "fmul NInf NInf = PInf"
| "fmul PInf NInf = NInf"
| "fmul NInf PInf = NInf"

fun fdiv :: "fval \<Rightarrow> fval \<Rightarrow> fval" where
  "fdiv (Fin a) (Fin b) =
     (if b \<noteq> 0 then Fin (a / b) else if a = 0 then NaN else inf_of_sign (0 < a))"
| "fdiv NaN _ = NaN"
| "fdiv _ NaN = NaN"
| "fdiv (Fin a) PInf = Fin 0"
| "fdiv (Fin a) NInf = Fin 0"
| "fdiv PInf (Fin b) = inf_of_sign (0 \<le> b)"
| "fdiv NInf (Fin b) = inf_of_sign (b < 0)"
| "fdiv _ _ = NaN"

fun fabs :: "fval \<Rightarrow> fval" where
  "fabs (Fin a) = Fin \<bar>a\<bar>"
| "fabs PInf = PInf"
| "fabs NInf = PInf"
| "fabs NaN = NaN"

text \<open>Comparisons with NaN are false.\<close>

fun flt :: "fval \<Rightarrow> fval \<Rightarrow> bool" where
  "flt (Fin a) (Fin b) = (a < b)"
| "flt NaN _ = False"
| "flt _ NaN = False"
| "flt NInf NInf = False"
| "flt NInf _ = True"
| "flt _ NInf = False"
| "flt PInf _ = False"
| "flt _ PInf = True"

fun fge :: "fval \<Rightarrow> fval \<Rightarrow> bool" where
  "fge (Fin a) (Fin b) = (b \<le> a)"
| "fge NaN _ = False"
| "fge _ NaN = False"
| "fge PInf _ = True"
| "fge _ NInf = True"
| "fge NInf _ = False"
| "fge _ PInf = False"

section \<open>Tensor operations\<close>

text \<open>\<open>t[mask] = v\<close> on tensors of one shape.\<close>

definition masked_fill :: "tensor \<Rightarrow> bool list \<Rightarrow> fval \<Rightarrow> tensor" where
  "masked_fill t msk v = map2 (\<lambda>x m. if m then v else x) t msk"

definition numel :: "'a list \<Rightarrow> nat" where
  "numel t = length t"

text \<open>\<open>(~mask).sum()\<close>: the number of False entries.\<close>

definition count_not :: "bool list \<Rightarrow> nat" where
  "count_not msk = length (filter Not msk)"

fun tsum :: "tensor \<Rightarrow> fval" where
  "tsum [] = Fin 0"
| "tsum (x # xs) = fadd x (tsum xs)"

definition of_count :: "nat \<Rightarrow> fval" where
  "of_count n = Fin (real n)"

text \<open>The mean of the empty tensor is NaN, as \<open>0 / 0\<close>.\<close>

definition tmean :: "tensor \<Rightarrow> fval" where
  "tmean t = fdiv (tsum t) (of_count (numel t))"

section \<open>The underlying losses\<close>

text \<open>
  \<open>torch.nn.MSELoss\<close>, \<open>L1Loss\<close> and \<open>BCELoss\<close> belong to the library the classes
  derive from. This section has them, and the three masked losses, in the configuration
  the constructors default to, \<open>reduction = 'mean'\<close>, and in exact arithmetic; the
  section on rounded arithmetic has them for every reduction mode and format.
\<close>

definition sq_err :: "fval \<Rightarrow> fval \<Rightarrow> fval" where
  "sq_err x t = fmul (fsub x t) (fsub x t)"

definition abs_err :: "fval \<Rightarrow> fval \<Rightarrow> fval" where
  "abs_err x t = fabs (fsub x t)"

definition MSELoss_forward :: "tensor \<Rightarrow> tensor \<Rightarrow> fval" where
  "MSELoss_forward input target = tmean (map2 sq_err input target)"

definition L1Loss_forward :: "tensor \<Rightarrow> tensor \<Rightarrow> fval" where
  "L1Loss_forward input target = tmean (map2 abs_err input target)"

section \<open>Masked squared and absolute error\<close>

definition MSELossIPU_forward :: "tensor \<Rightarrow> tensor \<Rightarrow> error + fval" where
  "MSELossIPU_forward input0 target0 =
     (let nan_targets = map isnan target0 in
      if length input0 \<noteq> length nan_targets then Inl IndexError
      else
        let input = masked_fill input0 nan_targets (Fin 0);
            target = masked_fill target0 nan_targets (Fin 0);
            loss = MSELoss_forward input target
        in Inr (fdiv (fmul loss (of_count (numel nan_targets))) (of_count (count_not nan_targets))))"

definition L1LossIPU_forward :: "tensor \<Rightarrow> tensor \<Rightarrow> error + fval" where
  "L1LossIPU_forward input0 target0 =
     (let nan_targets = map isnan target0 in
      if length input0 \<noteq> length nan_targets then Inl IndexError
      else
        let input = masked_fill input0 nan_targets (Fin 0);
            target = masked_fill target0 nan_targets (Fin 0);
            loss = L1Loss_forward input target
        in Inr (fdiv (fmul loss (of_count (numel nan_targets))) (of_count (count_not nan_targets))))"

section \<open>Masked binary cross-entropy\<close>

text \<open>
  \<open>torch.nn.functional.binary_cross_entropy\<close>: the sizes of input and target must
  agree, the weight is broadcast to the target's size, every input must lie in the unit
  interval, and the logarithms are clamped below at \<open>-100\<close>.
\<close>

definition infer_size :: "nat \<Rightarrow> nat \<Rightarrow> error + nat" where
  "infer_size a b =
     (if a = b then Inr a else if a = 1 then Inr b else if b = 1 then Inr a
      else Inl RuntimeError)"

definition expand :: "'a list \<Rightarrow> nat \<Rightarrow> error + 'a list" where
  "expand w n =
     (if length w = n then Inr w
      else case w of [x] \<Rightarrow> Inr (replicate n x) | _ \<Rightarrow> Inl RuntimeError)"

definition clamped_log :: "real \<Rightarrow> real" where
  "clamped_log p = (if p \<le> 0 then - 100 else max (ln p) (- 100))"

fun flog_clamped :: "fval \<Rightarrow> fval" where
  "flog_clamped (Fin p) = Fin (clamped_log p)"
| "flog_clamped PInf = PInf"
| "flog_clamped _ = NaN"

definition bce_term :: "fval \<Rightarrow> fval \<Rightarrow> fval" where
  "bce_term x t =
     fsub (fmul (fsub t (Fin 1)) (flog_clamped (fsub (Fin 1) x))) (fmul t (flog_clamped x))"

definition in_unit :: "fval \<Rightarrow> bool" where
  "in_unit x = (fge x (Fin 0) \<and> fge (Fin 1) x)"

definition broadcast_weight :: "tensor option \<Rightarrow> nat \<Rightarrow> error + tensor option" where
  "broadcast_weight wt n =
     (case wt of
        None \<Rightarrow> Inr None
      | Some w \<Rightarrow>
          (case infer_size n (length w) of
             Inl e \<Rightarrow> Inl e
           | Inr new_size \<Rightarrow> map_sum id Some (expand w new_size)))"

definition binary_cross_entropy :: "tensor option \<Rightarrow> tensor \<Rightarrow> tensor \<Rightarrow> error + fval" where
  "binary_cross_entropy wt input target =
     (if \<not> list_all in_unit input then Inl RuntimeError
      else (case wt of
              None \<Rightarrow> Inr (tmean (map2 bce_term input target))
            | Some w \<Rightarrow>
                if length w \<noteq> length input then Inl RuntimeError
                else Inr (tmean (map2 fmul (map2 bce_term input target) w))))"

definition BCELoss_forward :: "tensor option \<Rightarrow> tensor \<Rightarrow> tensor \<Rightarrow> error + fval" where
  "BCELoss_forward wt input target =
     (if length target \<noteq> length input then Inl ValueError
      else (case broadcast_weight wt (length target) of
              Inl e \<Rightarrow> Inl e
            | Inr wt' \<Rightarrow> binary_cross_entropy wt' input target))"

text \<open>\<open>a & b\<close> on boolean tensors, with broadcasting of a one-element operand.\<close>

definition broadcast_and :: "bool list \<Rightarrow> bool list \<Rightarrow> error + bool list" where
  "broadcast_and a b =
     (if length a = length b then Inr (map2 (\<and>) a b)
      else case a of
             [x] \<Rightarrow> Inr (map (\<lambda>y. x \<and> y) b)
           | _ \<Rightarrow> (case b of [y] \<Rightarrow> Inr (map (\<lambda>x. x \<and> y) a) | _ \<Rightarrow> Inl RuntimeError))"

record bce_layer =
  weight :: "tensor option"

text \<open>
  The first half of \<open>BCELossIPU.forward\<close>: the weight tensor (the layer's weight
  broadcast to the target's size, or all ones), the two substitutions in the target and
  the zeroing of the weight. It yields the target and the weight the loss is then
  computed with, and the mask of the missing targets.
\<close>

definition BCELossIPU_neutralize ::
  "bce_layer \<Rightarrow> tensor \<Rightarrow> tensor \<Rightarrow> error + (tensor \<times> tensor \<times> bool list)" where
  "BCELossIPU_neutralize self input target0 =
     (case (case weight self of
              Some w \<Rightarrow>
                (case infer_size (length target0) (length w) of
                   Inl e \<Rightarrow> Inl e
                 | Inr new_size \<Rightarrow> expand w new_size)
            | None \<Rightarrow> Inr (replicate (length target0) (Fin 1))) of
        Inl e \<Rightarrow> Inl e
      | Inr weight1 \<Rightarrow>
          let nan_targets = map isnan target0 in
          (case broadcast_and (map (\<lambda>x. flt x (Fin (1/2))) input) nan_targets of
             Inl e \<Rightarrow> Inl e
           | Inr nan_targets_0 \<Rightarrow>
               (case broadcast_and (map (\<lambda>x. fge x (Fin (1/2))) input) nan_targets of
                  Inl e \<Rightarrow> Inl e
                | Inr nan_targets_1 \<Rightarrow>
                    if length nan_targets_0 \<noteq> length target0 then Inl IndexError
                    else
                      let target = masked_fill (masked_fill target0 nan_targets_0 (Fin 0))
                                     nan_targets_1 (Fin 1) in
                      if length weight1 \<noteq> length nan_targets then Inl IndexError
                      else Inr (target, masked_fill weight1 nan_targets (Fin 0), nan_targets))))"

text \<open>
  The layer's \<open>weight\<close> attribute is assigned during the call, so the layer is passed
  in and returned. An exception leaves the layer as it is at the raise.
\<close>

definition BCELossIPU_forward ::
  "bce_layer \<Rightarrow> tensor \<Rightarrow> tensor \<Rightarrow> bce_layer \<times> (error + fval)" where
  "BCELossIPU_forward self input target0 =
     (let prev_weight = weight self in
      (case BCELossIPU_neutralize self input target0 of
         Inl e \<Rightarrow> (self, Inl e)
       | Inr (target, weight2, nan_targets) \<Rightarrow>
           let self1 = self\<lparr>weight := Some weight2\<rparr> in
           (case BCELoss_forward (weight self1) input target of
              Inl e \<Rightarrow> (self1, Inl e)
            | Inr loss \<Rightarrow>
                (self1\<lparr>weight := prev_weight\<rparr>,
                 Inr (fdiv (fmul loss (of_count (numel nan_targets)))
                        (of_count (count_not nan_targets)))))))"

section \<open>Masked classification metrics\<close>

text \<open>
  \<open>tensor.to(int)\<close> gives a 64-bit integer: a finite value is truncated towards
  zero, and a value whose truncation does not fit, a NaN or an infinity gives the
  smallest 64-bit integer (the result of the conversion instruction of the usual
  64-bit processors).
\<close>

fun to_int :: "fval \<Rightarrow> int" where
  "to_int (Fin a) =
     (let z = (if 0 \<le> a then \<lfloor>a\<rfloor> else \<lceil>a\<rceil>)
      in if - (2 ^ 63) \<le> z \<and> z < 2 ^ 63 then z else - (2 ^ 63))"
| "to_int _ = - (2 ^ 63)"

text \<open>
  The statistics of \<open>torchmetrics.functional\<close> are parameters of the model: each
  operation receives the statistic it delegates to, and hands it the keyword arguments
  \<open>kw\<close> as they came.
\<close>

definition fixed_class_neutralize :: "tensor \<Rightarrow> tensor \<Rightarrow> error + (tensor \<times> tensor)" where
  "fixed_class_neutralize preds0 target0 =
     (let nans = map isnan target0;
          target = masked_fill target0 nans (Fin 1)
      in if length preds0 \<noteq> length nans then Inl IndexError
         else Inr (masked_fill preds0 nans (Fin 0), target))"

definition precision_ipu ::
  "(tensor \<Rightarrow> int list \<Rightarrow> 'kw \<Rightarrow> error + 'r) \<Rightarrow> tensor \<Rightarrow> tensor \<Rightarrow> 'kw \<Rightarrow> error + 'r" where
  "precision_ipu precision preds0 target0 kw =
     (case fixed_class_neutralize preds0 target0 of
        Inl e \<Rightarrow> Inl e
      | Inr (preds, target) \<Rightarrow> precision preds (map to_int target) kw)"

definition accuracy_ipu ::
  "(tensor \<Rightarrow> int list \<Rightarrow> 'kw \<Rightarrow> error + 'r) \<Rightarrow> tensor \<Rightarrow> tensor \<Rightarrow> 'kw \<Rightarrow> error + 'r" where
  "accuracy_ipu accuracy preds0 target0 kw =
     (case fixed_class_neutralize preds0 target0 of
        Inl e \<Rightarrow> Inl e
      | Inr (preds, target) \<Rightarrow> accuracy preds (map to_int target) kw)"

definition recall_ipu ::
  "(tensor \<Rightarrow> int list \<Rightarrow> 'kw \<Rightarrow> error + 'r) \<Rightarrow> tensor \<Rightarrow> tensor \<Rightarrow> 'kw \<Rightarrow> error + 'r" where
  "recall_ipu recall preds0 target0 kw =
     (case fixed_class_neutralize preds0 target0 of
        Inl e \<Rightarrow> Inl e
      | Inr (preds, target) \<Rightarrow> recall preds (map to_int target) kw)"

section \<open>Masked ranking metrics, with the tensors as objects\<close>

text \<open>
  \<open>auroc_ipu\<close> and \<open>average_precision_ipu\<close> assign into tensors they did not
  all allocate, so here the tensors live in a store: an address is an index into the
  list of allocated tensors, \<open>clone\<close> and \<open>torch.ones\<close> allocate at the end, and an
  indexed assignment updates the tensor at its address.
\<close>

type_synonym addr = nat
type_synonym store = "tensor list"

definition alloc :: "store \<Rightarrow> tensor \<Rightarrow> store \<times> addr" where
  "alloc h t = (h @ [t], length h)"

definition clone :: "store \<Rightarrow> addr \<Rightarrow> store \<times> addr" where
  "clone h a = alloc h (h ! a)"

definition index_put :: "store \<Rightarrow> addr \<Rightarrow> bool list \<Rightarrow> fval \<Rightarrow> error + store" where
  "index_put h a msk v =
     (if length (h ! a) \<noteq> length msk then Inl IndexError
      else Inr (h[a := masked_fill (h ! a) msk v]))"

definition auroc_ipu ::
  "(tensor \<Rightarrow> int list \<Rightarrow> 'kw \<Rightarrow> tensor \<Rightarrow> error + 'r) \<Rightarrow>
   store \<Rightarrow> addr \<Rightarrow> addr \<Rightarrow> 'kw \<Rightarrow> addr option \<Rightarrow> store \<times> (error + 'r)" where
  "auroc_ipu auroc h0 preds0 target0 kw sample_weights0 =
     (let (h1, target) = clone h0 target0;
          (h2, preds) = clone h1 preds0;
          nan_targets = map isnan (h2 ! target)
      in (case index_put h2 preds nan_targets (Fin 0) of
            Inl e \<Rightarrow> (h2, Inl e)
          | Inr h3 \<Rightarrow>
              (case index_put h3 target nan_targets (Fin 0) of
                 Inl e \<Rightarrow> (h3, Inl e)
               | Inr h4 \<Rightarrow>
                   let (h5, sample_weights) =
                         (case sample_weights0 of
                            None \<Rightarrow> alloc h4 (replicate (length (h4 ! target)) (Fin 1))
                          | Some a \<Rightarrow> (h4, a))
                   in (case index_put h5 sample_weights nan_targets (Fin 0) of
                         Inl e \<Rightarrow> (h5, Inl e)
                       | Inr h6 \<Rightarrow>
                           (h6, auroc (h6 ! preds) (map to_int (h6 ! target)) kw
                                  (h6 ! sample_weights))))))"

definition average_precision_ipu ::
  "(tensor \<Rightarrow> int list \<Rightarrow> 'kw \<Rightarrow> tensor \<Rightarrow> error + 'r) \<Rightarrow>
   store \<Rightarrow> addr \<Rightarrow> addr \<Rightarrow> 'kw \<Rightarrow> addr option \<Rightarrow> store \<times> (error + 'r)" where
  "average_precision_ipu average_precision h0 preds0 target0 kw sample_weights0 =
     (let (h1, target) = clone h0 target0;
          (h2, preds) = clone h1 preds0;
          nan_targets = map isnan (h2 ! target)
      in (case index_put h2 preds nan_targets (Fin 0) of
            Inl e \<Rightarrow> (h2, Inl e)
          | Inr h3 \<Rightarrow>
              (case index_put h3 target nan_targets (Fin 0) of
                 Inl e \<Rightarrow> (h3, Inl e)
               | Inr h4 \<Rightarrow>
                   let (h5, sample_weights) =
                         (case sample_weights0 of
                            None \<Rightarrow> alloc h4 (replicate (length (h4 ! target)) (Fin 1))
                          | Some a \<Rightarrow> (h4, a))
                   in (case index_put h5 sample_weights nan_targets (Fin 0) of
                         Inl e \<Rightarrow> (h5, Inl e)
                       | Inr h6 \<Rightarrow>
                           (h6, average_precision (h6 ! preds) (map to_int (h6 ! target)) kw
                                  (h6 ! sample_weights))))))"

section \<open>Rounded arithmetic and the reduction mode\<close>

text \<open>
  The operations \<open>fadd\<close>, \<open>fmul\<close>, \<open>fdiv\<close> above give the exact result. A tensor of a
  floating-point format holds the exact result rounded to the format: to the nearest
  value with \<open>p\<close> significant bits, ties to the even one, the exponent kept at or above
  the smallest normal one, and an infinity when the rounded value passes the largest
  finite one. \<open>Exact\<close> is the arithmetic without rounding; \<open>Binary 24 127\<close> is the 32-bit
  format that torch takes by default and \<open>Binary 53 1023\<close> the 64-bit one.
\<close>

datatype arith = Exact | Binary nat nat

definition float32 :: arith where
  "float32 = Binary 24 127"

definition float64 :: arith where
  "float64 = Binary 53 1023"

definition pow2 :: "int \<Rightarrow> real" where
  "pow2 e = (if 0 \<le> e then 2 ^ nat e else 1 / 2 ^ nat (- e))"

text \<open>The exponent of a positive value: \<open>pow2 (ilog2 x) \<le> x < pow2 (ilog2 x + 1)\<close>.\<close>

definition ilog2 :: "real \<Rightarrow> int" where
  "ilog2 x = (if 1 \<le> x then bitlen \<lfloor>x\<rfloor> - 1 else - bitlen (\<lceil>1 / x\<rceil> - 1))"

definition round_even :: "real \<Rightarrow> int" where
  "round_even q =
     (let f = \<lfloor>q\<rfloor>; d = q - of_int f
      in if d < 1 / 2 then f else if 1 / 2 < d then f + 1 else if even f then f else f + 1)"

fun rnd :: "arith \<Rightarrow> real \<Rightarrow> fval" where
  "rnd Exact x = Fin x"
| "rnd (Binary p emax) x =
     (if x = 0 then Fin 0
      else
        let e = max (ilog2 \<bar>x\<bar>) (1 - int emax) - (int p - 1);
            y = of_int (round_even (\<bar>x\<bar> / pow2 e)) * pow2 e
        in if pow2 (int emax + 1) \<le> y then (if 0 < x then PInf else NInf)
           else Fin (if 0 < x then y else - y))"

fun round_val :: "arith \<Rightarrow> fval \<Rightarrow> fval" where
  "round_val ar (Fin x) = rnd ar x"
| "round_val ar v = v"

definition radd :: "arith \<Rightarrow> fval \<Rightarrow> fval \<Rightarrow> fval" where
  "radd ar a b = round_val ar (fadd a b)"

definition rsub :: "arith \<Rightarrow> fval \<Rightarrow> fval \<Rightarrow> fval" where
  "rsub ar a b = round_val ar (fsub a b)"

definition rmul :: "arith \<Rightarrow> fval \<Rightarrow> fval \<Rightarrow> fval" where
  "rmul ar a b = round_val ar (fmul a b)"

definition rdiv :: "arith \<Rightarrow> fval \<Rightarrow> fval \<Rightarrow> fval" where
  "rdiv ar a b = round_val ar (fdiv a b)"

text \<open>An integer count, converted to the format.\<close>

definition rcount :: "arith \<Rightarrow> nat \<Rightarrow> fval" where
  "rcount ar n = rnd ar (real n)"

text \<open>
  The sum of a tensor adds its elements one after the other; the order in which the
  library adds them is its own.
\<close>

fun rsum :: "arith \<Rightarrow> tensor \<Rightarrow> fval" where
  "rsum ar [] = Fin 0"
| "rsum ar (x # xs) = radd ar x (rsum ar xs)"

text \<open>
  The losses of \<open>torch.nn\<close> take their \<open>reduction\<close> from the constructor, which the
  three classes inherit: the mean of the element-wise losses (the default), their sum,
  or the element-wise losses themselves.
\<close>

datatype reduction = ReduceMean | ReduceSum | ReduceNone

datatype loss = Scalar fval | Elementwise tensor

fun reduce :: "arith \<Rightarrow> reduction \<Rightarrow> tensor \<Rightarrow> loss" where
  "reduce ar ReduceMean ts = Scalar (rdiv ar (rsum ar ts) (rcount ar (numel ts)))"
| "reduce ar ReduceSum ts = Scalar (rsum ar ts)"
| "reduce ar ReduceNone ts = Elementwise ts"

text \<open>\<open>loss * numel / count\<close>, from left to right, on a scalar or on every element.\<close>

definition rescale1 :: "arith \<Rightarrow> nat \<Rightarrow> nat \<Rightarrow> fval \<Rightarrow> fval" where
  "rescale1 ar n k v = rdiv ar (rmul ar v (rcount ar n)) (rcount ar k)"

fun rescale :: "arith \<Rightarrow> loss \<Rightarrow> nat \<Rightarrow> nat \<Rightarrow> loss" where
  "rescale ar (Scalar v) n k = Scalar (rescale1 ar n k v)"
| "rescale ar (Elementwise ts) n k = Elementwise (map (rescale1 ar n k) ts)"

definition rsq_err :: "arith \<Rightarrow> fval \<Rightarrow> fval \<Rightarrow> fval" where
  "rsq_err ar x t = rmul ar (rsub ar x t) (rsub ar x t)"

definition rabs_err :: "arith \<Rightarrow> fval \<Rightarrow> fval \<Rightarrow> fval" where
  "rabs_err ar x t = fabs (rsub ar x t)"

definition MSELoss_forward_cfg :: "arith \<Rightarrow> reduction \<Rightarrow> tensor \<Rightarrow> tensor \<Rightarrow> loss" where
  "MSELoss_forward_cfg ar red input target = reduce ar red (map2 (rsq_err ar) input target)"

definition L1Loss_forward_cfg :: "arith \<Rightarrow> reduction \<Rightarrow> tensor \<Rightarrow> tensor \<Rightarrow> loss" where
  "L1Loss_forward_cfg ar red input target = reduce ar red (map2 (rabs_err ar) input target)"

text \<open>
  \<open>MSELossIPU.forward\<close> and \<open>L1LossIPU.forward\<close> for a layer constructed with the
  reduction \<open>red\<close>, on tensors of the format \<open>ar\<close>. \<open>MSELossIPU_forward\<close> and
  \<open>L1LossIPU_forward\<close> above are the case of the default reduction in exact arithmetic.
\<close>

definition MSELossIPU_forward_cfg ::
  "arith \<Rightarrow> reduction \<Rightarrow> tensor \<Rightarrow> tensor \<Rightarrow> error + loss" where
  "MSELossIPU_forward_cfg ar red input0 target0 =
     (let nan_targets = map isnan target0 in
      if length input0 \<noteq> length nan_targets then Inl IndexError
      else
        let input = masked_fill input0 nan_targets (Fin 0);
            target = masked_fill target0 nan_targets (Fin 0);
            loss = MSELoss_forward_cfg ar red input target
        in Inr (rescale ar loss (numel nan_targets) (count_not nan_targets)))"

definition L1LossIPU_forward_cfg ::
  "arith \<Rightarrow> reduction \<Rightarrow> tensor \<Rightarrow> tensor \<Rightarrow> error + loss" where
  "L1LossIPU_forward_cfg ar red input0 target0 =
     (let nan_targets = map isnan target0 in
      if length input0 \<noteq> length nan_targets then Inl IndexError
      else
        let input = masked_fill input0 nan_targets (Fin 0);
            target = masked_fill target0 nan_targets (Fin 0);
            loss = L1Loss_forward_cfg ar red input target
        in Inr (rescale ar loss (numel nan_targets) (count_not nan_targets)))"

text \<open>The binary cross-entropy, its logarithms rounded like the other operations.\<close>

definition rbce_term :: "arith \<Rightarrow> fval \<Rightarrow> fval \<Rightarrow> fval" where
  "rbce_term ar x t =
     rsub ar (rmul ar (rsub ar t (Fin 1)) (round_val ar (flog_clamped (rsub ar (Fin 1) x))))
       (rmul ar t (round_val ar (flog_clamped x)))"

definition binary_cross_entropy_cfg ::
  "arith \<Rightarrow> reduction \<Rightarrow> tensor option \<Rightarrow> tensor \<Rightarrow> tensor \<Rightarrow> error + loss" where
  "binary_cross_entropy_cfg ar red wt input target =
     (if \<not> list_all in_unit input then Inl RuntimeError
      else (case wt of
              None \<Rightarrow> Inr (reduce ar red (map2 (rbce_term ar) input target))
            | Some w \<Rightarrow>
                if length w \<noteq> length input then Inl RuntimeError
                else Inr (reduce ar red
                       (map2 (rmul ar) (map2 (rbce_term ar) input target) w))))"

definition BCELoss_forward_cfg ::
  "arith \<Rightarrow> reduction \<Rightarrow> tensor option \<Rightarrow> tensor \<Rightarrow> tensor \<Rightarrow> error + loss" where
  "BCELoss_forward_cfg ar red wt input target =
     (if length target \<noteq> length input then Inl ValueError
      else (case broadcast_weight wt (length target) of
              Inl e \<Rightarrow> Inl e
            | Inr wt' \<Rightarrow> binary_cross_entropy_cfg ar red wt' input target))"

definition BCELossIPU_forward_cfg ::
  "arith \<Rightarrow> reduction \<Rightarrow> bce_layer \<Rightarrow> tensor \<Rightarrow> tensor \<Rightarrow> bce_layer \<times> (error + loss)" where
  "BCELossIPU_forward_cfg ar red self input target0 =
     (let prev_weight = weight self in
      (case BCELossIPU_neutralize self input target0 of
         Inl e \<Rightarrow> (self, Inl e)
       | Inr (target, weight2, nan_targets) \<Rightarrow>
           let self1 = self\<lparr>weight := Some weight2\<rparr> in
           (case BCELoss_forward_cfg ar red (weight self1) input target of
              Inl e \<Rightarrow> (self1, Inl e)
            | Inr loss \<Rightarrow>
                (self1\<lparr>weight := prev_weight\<rparr>,
                 Inr (rescale ar loss (numel nan_targets) (count_not nan_targets))))))"

section \<open>Exclusion and neutralisation, as the specification words them\<close>


definition zero_at_missing :: "tensor \<Rightarrow> tensor \<Rightarrow> tensor" where
  "zero_at_missing target xs = map2 (\<lambda>t x. if isnan t then Fin 0 else x) target xs"

definition bce_neutral_target :: "tensor \<Rightarrow> tensor \<Rightarrow> tensor" where
  "bce_neutral_target input target =
     map2 (\<lambda>x t. if isnan t
                  then (if flt x (Fin (1/2)) then Fin 0 else if fge x (Fin (1/2)) then Fin 1 else t)
                  else t) input target"

definition observed :: "tensor \<Rightarrow> nat" where
  "observed target = length (filter (\<lambda>t. \<not> isnan t) target)"


definition weight_broadcastable :: "bce_layer \<Rightarrow> nat \<Rightarrow> bool" where
  "weight_broadcastable self n =
     (case weight self of None \<Rightarrow> True | Some w \<Rightarrow> length w = n \<or> length w = 1)"

definition expanded_weight :: "bce_layer \<Rightarrow> nat \<Rightarrow> tensor" where
  "expanded_weight self n =
     (case weight self of
        None \<Rightarrow> replicate n (Fin 1)
      | Some w \<Rightarrow> if length w = n then w else replicate n (hd w))"

text \<open>The values a term that should not count may take: zero, or NaN.\<close>

definition zero_or_nan :: "fval \<Rightarrow> bool" where
  "zero_or_nan v = (v = Fin 0 \<or> v = NaN)"

text \<open>A loss all of whose values are NaN: the scalar, or every element.\<close>

fun all_nan :: "loss \<Rightarrow> bool" where
  "all_nan (Scalar v) = (v = NaN)"
| "all_nan (Elementwise vs) = list_all (\<lambda>v. v = NaN) vs"


section \<open>Pairwise graph distances\<close>

text \<open>
  \<open>networkx.from_numpy_array\<close> on a square matrix: the nodes are the row indices, and
  the graph being undirected, a nonzero entry in either direction joins two nodes. The
  graph is kept as its adjacency lists. A matrix that is not square is refused.
\<close>

type_synonym graph = "nat list list"

definition from_numpy_array :: "int list list \<Rightarrow> error + graph" where
  "from_numpy_array A =
     (if \<exists>row\<in>set A. length row \<noteq> length A then Inl NetworkXError
      else Inr (map (\<lambda>u. filter (\<lambda>v. A ! u ! v \<noteq> 0 \<or> A ! v ! u \<noteq> 0) [0..<length A])
                  [0..<length A]))"

text \<open>
  The breadth-first search of \<open>networkx\<close>: \<open>paths\<close> maps each node reached so far to
  the path it was reached by, and each round visits the neighbours of the nodes that
  the round before added.
\<close>

type_synonym paths = "nat \<rightharpoonup> nat list"

fun visit_nbrs :: "nat list \<Rightarrow> nat list \<Rightarrow> paths \<times> nat list \<Rightarrow> paths \<times> nat list" where
  "visit_nbrs [] pv (P, nextlevel) = (P, nextlevel)"
| "visit_nbrs (w # ws) pv (P, nextlevel) =
     visit_nbrs ws pv
       (case P w of
          None \<Rightarrow> (P(w \<mapsto> pv @ [w]), nextlevel @ [w])
        | Some _ \<Rightarrow> (P, nextlevel))"

fun visit_level :: "graph \<Rightarrow> nat list \<Rightarrow> paths \<times> nat list \<Rightarrow> error + paths \<times> nat list" where
  "visit_level G [] s = Inr s"
| "visit_level G (v # vs) (P, nextlevel) =
     (if \<not> v < length G then Inl KeyError
      else case P v of
             None \<Rightarrow> Inl KeyError
           | Some pv \<Rightarrow> visit_level G vs (visit_nbrs (G ! v) pv (P, nextlevel)))"

text \<open>The nodes that the adjacency lists mention.\<close>

definition mentioned :: "graph \<Rightarrow> nat set" where
  "mentioned G = \<Union> (set (map set G))"

lemma visit_nbrs_mono:
  "visit_nbrs ws pv (P, nl) = (P', nl') \<Longrightarrow> P x \<noteq> None \<Longrightarrow> P' x = P x"
  by (induction ws arbitrary: P nl) (auto split: option.splits)

lemma visit_nbrs_new:
  "visit_nbrs ws pv (P, nl) = (P', nl') \<Longrightarrow>
   set nl' = set nl \<union> {x. P x = None \<and> P' x \<noteq> None} \<and> {x. P x = None \<and> P' x \<noteq> None} \<subseteq> set ws"
proof (induction ws arbitrary: P nl)
  case Nil
  then show ?case by auto
next
  case (Cons w ws)
  show ?case
  proof (cases "P w")
    case None
    with Cons.prems have r: "visit_nbrs ws pv (P(w \<mapsto> pv @ [w]), nl @ [w]) = (P', nl')" by simp
    have "P' w = Some (pv @ [w])" using visit_nbrs_mono[OF r, of w] by simp
    with Cons.IH[OF r] None show ?thesis by (auto split: if_splits)
  next
    case (Some a)
    with Cons.prems have r: "visit_nbrs ws pv (P, nl) = (P', nl')" by simp
    from Cons.IH[OF r] show ?thesis by auto
  qed
qed

lemma visit_level_mono:
  "visit_level G vs (P, nl) = Inr (P', nl') \<Longrightarrow> P x \<noteq> None \<Longrightarrow> P' x = P x"
proof (induction vs arbitrary: P nl)
  case Nil
  then show ?case by simp
next
  case (Cons v vs)
  from Cons.prems(1) obtain pv where pv: "P v = Some pv" and v: "v < length G"
    by (auto split: if_splits option.splits)
  obtain P1 nl1 where s: "visit_nbrs (G ! v) pv (P, nl) = (P1, nl1)" by (cases "visit_nbrs (G ! v) pv (P, nl)")
  with Cons.prems pv v have r: "visit_level G vs (P1, nl1) = Inr (P', nl')" by simp
  have "P1 x = P x" using visit_nbrs_mono[OF s Cons.prems(2)] .
  with Cons.IH[OF r] Cons.prems(2) show ?case by simp
qed

lemma visit_level_new:
  "visit_level G vs (P, nl) = Inr (P', nl') \<Longrightarrow>
   set nl' = set nl \<union> {x. P x = None \<and> P' x \<noteq> None}
   \<and> {x. P x = None \<and> P' x \<noteq> None} \<subseteq> mentioned G"
proof (induction vs arbitrary: P nl)
  case Nil
  then show ?case by auto
next
  case (Cons v vs)
  from Cons.prems(1) obtain pv where pv: "P v = Some pv" and v: "v < length G"
    by (auto split: if_splits option.splits)
  obtain P1 nl1 where s: "visit_nbrs (G ! v) pv (P, nl) = (P1, nl1)" by (cases "visit_nbrs (G ! v) pv (P, nl)")
  with Cons.prems pv v have r: "visit_level G vs (P1, nl1) = Inr (P', nl')" by simp
  have sub: "set (G ! v) \<subseteq> mentioned G"
    using nth_mem[OF v] by (auto simp: mentioned_def)
  have m1: "P1 x = P x" if "P x \<noteq> None" for x using visit_nbrs_mono[OF s that] .
  have m2: "P' x = P1 x" if "P1 x \<noteq> None" for x using visit_level_mono[OF r that] .
  let ?N = "{x. P x = None \<and> P' x \<noteq> None}"
  let ?N1 = "{x. P x = None \<and> P1 x \<noteq> None}"
  let ?N2 = "{x. P1 x = None \<and> P' x \<noteq> None}"
  have "?N = ?N1 \<union> ?N2"
  proof (intro set_eqI iffI)
    fix x assume "x \<in> ?N"
    then show "x \<in> ?N1 \<union> ?N2" by (cases "P1 x") auto
  next
    fix x assume "x \<in> ?N1 \<union> ?N2"
    then show "x \<in> ?N"
    proof
      assume "x \<in> ?N1"
      then show ?thesis using m2[of x] by auto
    next
      assume x: "x \<in> ?N2"
      then have "P x = None" using m1[of x] by (cases "P x") auto
      with x show ?thesis by simp
    qed
  qed
  moreover have "set nl1 = set nl \<union> ?N1" "?N1 \<subseteq> set (G ! v)"
    using visit_nbrs_new[OF s] by simp_all
  moreover have "set nl' = set nl1 \<union> ?N2" "?N2 \<subseteq> mentioned G"
    using Cons.IH[OF r] by simp_all
  ultimately show ?case using sub by auto
qed

lemma finite_mentioned: "finite (mentioned G)"
  by (simp add: mentioned_def)

function single_shortest_path :: "graph \<Rightarrow> paths \<Rightarrow> nat list \<Rightarrow> error + paths" where
  "single_shortest_path G P nextlevel =
     (if nextlevel = [] then Inr P
      else case visit_level G nextlevel (P, []) of
             Inl e \<Rightarrow> Inl e
           | Inr (P', nextlevel') \<Rightarrow> single_shortest_path G P' nextlevel')"
  by pat_completeness auto
termination
proof (relation "(\<lambda>(G, P, nl). card {x \<in> mentioned G. P x = None}) <*mlex*>
                 measure (\<lambda>(G, P, nl). if nl = [] then 0 else 1)")
  show "wf ((\<lambda>(G, P, nl). card {x \<in> mentioned G. P x = None}) <*mlex*>
                 measure (\<lambda>(G, P, nl). if nl = [] then 0 else 1))"
    by (simp add: wf_mlex)
next
  fix G :: graph and P :: paths and nextlevel :: "nat list" and x2 :: "paths \<times> nat list"
    and P' :: paths and nextlevel' :: "nat list"
  assume ne: "nextlevel \<noteq> []" and "visit_level G nextlevel (P, []) = Inr x2"
    and "(P', nextlevel') = x2"
  then have r: "visit_level G nextlevel (P, []) = Inr (P', nextlevel')" by simp
  let ?U = "\<lambda>Q. {x \<in> mentioned G. Q x = None}"
  have sub: "?U P' \<subseteq> ?U P"
  proof
    fix x assume x: "x \<in> ?U P'"
    then have "P x = None" using visit_level_mono[OF r, of x] by (cases "P x") auto
    with x show "x \<in> ?U P" by simp
  qed
  have fin: "finite (?U P)" using finite_mentioned by simp
  show "((G, P', nextlevel'), (G, P, nextlevel))
        \<in> (\<lambda>(G, P, nl). card {x \<in> mentioned G. P x = None}) <*mlex*>
                 measure (\<lambda>(G, P, nl). if nl = [] then 0 else 1)"
  proof (cases "nextlevel' = []")
    case True
    with ne card_mono[OF fin sub] show ?thesis
      by (auto simp: mlex_prod_def)
  next
    case False
    then obtain w where w: "w \<in> set nextlevel'" by (cases nextlevel') auto
    with visit_level_new[OF r] have "w \<in> ?U P" "w \<notin> ?U P'" by auto
    with sub have "?U P' \<subset> ?U P" by blast
    from psubset_card_mono[OF fin this] show ?thesis
      by (simp add: mlex_prod_def)
  qed
qed


definition single_source_shortest_path :: "graph \<Rightarrow> nat \<Rightarrow> error + paths" where
  "single_source_shortest_path G source =
     single_shortest_path G [source \<mapsto> [source]] [source]"

fun sequence_sum :: "(error + 'a) list \<Rightarrow> error + 'a list" where
  "sequence_sum [] = Inr []"
| "sequence_sum (x # xs) =
     (case x of
        Inl e \<Rightarrow> Inl e
      | Inr y \<Rightarrow> (case sequence_sum xs of Inl e \<Rightarrow> Inl e | Inr ys \<Rightarrow> Inr (y # ys)))"

text \<open>
  \<open>dist_dict\<close>: for each node in turn, the length of each path found from it, less
  one. The entry of node \<open>i\<close> is at index \<open>i\<close>.
\<close>

definition path_lengths :: "paths \<Rightarrow> (nat \<rightharpoonup> int)" where
  "path_lengths paths_from_i = (\<lambda>j. map_option (\<lambda>path. int (length path) - 1) (paths_from_i j))"

definition dist_dict_of :: "graph \<Rightarrow> error + (nat \<rightharpoonup> int) list" where
  "dist_dict_of G =
     sequence_sum
       (map (\<lambda>i. case single_source_shortest_path G i of
                   Inl e \<Rightarrow> Inl e
                 | Inr paths_from_i \<Rightarrow> Inr (path_lengths paths_from_i))
          [0..<length G])"

text \<open>\<open>dist_dict[i][j]\<close>, a KeyError when either key is missing.\<close>

definition lookup2 :: "(nat \<rightharpoonup> int) list \<Rightarrow> nat \<Rightarrow> nat \<Rightarrow> error + int" where
  "lookup2 dist_dict i j =
     (if \<not> i < length dist_dict then Inl KeyError
      else case (dist_dict ! i) j of None \<Rightarrow> Inl KeyError | Some d \<Rightarrow> Inr d)"

definition dist_matrix :: "(nat \<rightharpoonup> int) list \<Rightarrow> int \<Rightarrow> error + int list list" where
  "dist_matrix dist_dict num_nodes =
     sequence_sum
       (map (\<lambda>i. sequence_sum (map (\<lambda>j. lookup2 dist_dict i j) [0..<nat num_nodes]))
          [0..<nat num_nodes])"

text \<open>
  The computation on a cache miss: the graph of the matrix, the paths from every node,
  and the matrix of their lengths.
\<close>

definition pairwise_distances :: "int list list \<Rightarrow> int \<Rightarrow> error + int list list" where
  "pairwise_distances adj num_nodes =
     (case from_numpy_array adj of
        Inl e \<Rightarrow> Inl e
      | Inr G \<Rightarrow>
          (case dist_dict_of G of
             Inl e \<Rightarrow> Inl e
           | Inr dist_dict \<Rightarrow> dist_matrix dist_dict num_nodes))"

text \<open>
  The distance matrices are objects: the cache holds the address of one, and the
  operation returns an address. A new matrix is allocated at the end of the store. The
  cache is the caller's dictionary, updated in place and returned.
\<close>

type_synonym matrices = "int list list list"

definition compute_graphormer_distances ::
  "matrices \<Rightarrow> int list list \<Rightarrow> int \<Rightarrow> (string \<rightharpoonup> nat) \<Rightarrow>
   error + matrices \<times> nat \<times> string \<times> (string \<rightharpoonup> nat)" where
  "compute_graphormer_distances h adj num_nodes cache =
     (let base_level = ''pair'' in
      case cache ''graphormer'' of
        Some dist_ref \<Rightarrow> Inr (h, dist_ref, base_level, cache)
      | None \<Rightarrow>
          (case pairwise_distances adj num_nodes of
             Inl e \<Rightarrow> Inl e
           | Inr d \<Rightarrow>
               let dist_ref = length h
               in Inr (h @ [d], dist_ref, base_level, cache(''graphormer'' \<mapsto> dist_ref))))"

text \<open>The cycle on four nodes, with the edges 0-1, 1-2, 2-3 and 3-0.\<close>

definition c4 :: "int list list" where
  "c4 = [[0,1,0,1],[1,0,1,0],[0,1,0,1],[1,0,1,0]]"

section \<open>Shortest paths, as the specification words them\<close>

text \<open>
  Two nodes of the matrix are joined when an entry between them, in either direction,
  is not zero: the graph built from the matrix is undirected. \<open>hops A i k j\<close>: some walk
  of \<open>k\<close> edges leads from node \<open>i\<close> to node \<open>j\<close>.
\<close>

definition edge :: "int list list \<Rightarrow> nat \<Rightarrow> nat \<Rightarrow> bool" where
  "edge A u v = (u < length A \<and> v < length A \<and> (A ! u ! v \<noteq> 0 \<or> A ! v ! u \<noteq> 0))"

inductive hops :: "int list list \<Rightarrow> nat \<Rightarrow> nat \<Rightarrow> nat \<Rightarrow> bool" for A i where
  hops_here: "i < length A \<Longrightarrow> hops A i 0 i"
| hops_step: "hops A i k u \<Longrightarrow> edge A u v \<Longrightarrow> hops A i (Suc k) v"

definition connected :: "int list list \<Rightarrow> bool" where
  "connected A = (\<forall>i<length A. \<forall>j<length A. \<exists>k. hops A i k j)"

text \<open>\<open>k\<close> is the number of edges on a shortest path from \<open>i\<close> to \<open>j\<close>.\<close>

definition shortest :: "int list list \<Rightarrow> nat \<Rightarrow> nat \<Rightarrow> nat \<Rightarrow> bool" where
  "shortest A i j k = (hops A i k j \<and> (\<forall>k'. hops A i k' j \<longrightarrow> k \<le> k'))"

text \<open>\<open>G\<close> holds the adjacency lists of the matrix \<open>A\<close>.\<close>

definition graph_of :: "int list list \<Rightarrow> graph \<Rightarrow> bool" where
  "graph_of A G = (length G = length A \<and> (\<forall>u<length A. set (G ! u) = {v. edge A u v}))"

text \<open>The invariant of the search from \<open>s\<close> after \<open>L\<close> rounds.\<close>

definition bfs_inv :: "int list list \<Rightarrow> nat \<Rightarrow> nat \<Rightarrow> paths \<Rightarrow> nat list \<Rightarrow> bool" where
  "bfs_inv A s L P F =
     ((\<forall>v p. P v = Some p \<longrightarrow>
          p \<noteq> [] \<and> length p \<le> L + 1 \<and> hops A s (length p - 1) v
          \<and> (\<forall>k. hops A s k v \<longrightarrow> length p \<le> k + 1))
      \<and> set F = {v. \<exists>p. P v = Some p \<and> length p = L + 1}
      \<and> (\<forall>k v. hops A s k v \<and> k \<le> L \<longrightarrow> P v \<noteq> None))"

section \<open>Properties of the masked losses\<close>

subsection \<open>Arithmetic on the element type\<close>




lemma fmul_fdiv_count:
  "fdiv (fmul x (of_count n)) (of_count k) = fmul x (fdiv (of_count n) (of_count k))"
  by (cases x) (auto simp: of_count_def inf_of_sign_def zero_less_mult_iff mult_less_0_iff divide_less_0_iff zero_less_divide_iff)

lemma count_not_isnan: "count_not (map isnan ts) = observed ts"
  by (simp add: count_not_def observed_def filter_map comp_def)

subsection \<open>Masks and exclusion\<close>

lemma masked_fill_isnan:
  "length xs = length ts \<Longrightarrow> masked_fill xs (map isnan ts) (Fin 0) = zero_at_missing ts xs"
  by (induction xs ts rule: list_induct2) (simp_all add: masked_fill_def zero_at_missing_def)








lemma observed_none: "\<forall>t\<in>set ts. isnan t \<Longrightarrow> observed ts = 0"
  by (simp add: observed_def)




subsection \<open>Squared and absolute error\<close>

lemma MSELossIPU_forward_eval:
  assumes "length xs = length ts"
  shows "MSELossIPU_forward xs ts =
         Inr (fdiv (fmul (MSELoss_forward (zero_at_missing ts xs) (zero_at_missing ts ts))
                      (of_count (length ts))) (of_count (observed ts)))"
  using assms
  by (simp add: MSELossIPU_forward_def Let_def masked_fill_isnan count_not_isnan numel_def)

lemma L1LossIPU_forward_eval:
  assumes "length xs = length ts"
  shows "L1LossIPU_forward xs ts =
         Inr (fdiv (fmul (L1Loss_forward (zero_at_missing ts xs) (zero_at_missing ts ts))
                      (of_count (length ts))) (of_count (observed ts)))"
  using assms
  by (simp add: L1LossIPU_forward_def Let_def masked_fill_isnan count_not_isnan numel_def)

lemma sq_err_zero: "sq_err (Fin 0) (Fin 0) = Fin 0"
  by (simp add: fsub_def sq_err_def)

lemma abs_err_zero: "abs_err (Fin 0) (Fin 0) = Fin 0"
  by (simp add: fsub_def abs_err_def)



subsection \<open>Binary cross-entropy\<close>

lemma in_unit_Fin: "in_unit x \<Longrightarrow> \<exists>p. x = Fin p"
  by (cases x) (simp_all add: in_unit_def)

lemma layer_weight_eval:
  assumes "weight_broadcastable self n"
  shows "(case weight self of
              Some w \<Rightarrow>
                (case infer_size n (length w) of
                   Inl e \<Rightarrow> Inl e
                 | Inr new_size \<Rightarrow> expand w new_size)
            | None \<Rightarrow> Inr (replicate n (Fin 1))) = Inr (expanded_weight self n)"
proof (cases "weight self")
  case None
  then show ?thesis by (simp add: expanded_weight_def)
next
  case (Some w)
  show ?thesis
  proof (cases "length w = n")
    case True
    with Some show ?thesis by (simp add: expanded_weight_def infer_size_def expand_def)
  next
    case False
    with assms Some obtain v where "w = [v]"
      by (cases w) (auto simp: weight_broadcastable_def)
    with Some False show ?thesis by (simp add: expanded_weight_def infer_size_def expand_def)
  qed
qed

lemma length_expanded_weight:
  "weight_broadcastable self n \<Longrightarrow> length (expanded_weight self n) = n"
  by (auto simp: expanded_weight_def weight_broadcastable_def split: option.splits)

lemma flt_not_fge: "flt x (Fin c) \<Longrightarrow> \<not> fge x (Fin c)"
  by (cases x) simp_all

lemma bce_masks:
  assumes "length xs = length ts"
  shows "masked_fill (masked_fill ts (map2 (\<and>) (map (\<lambda>x. flt x (Fin (1/2))) xs) (map isnan ts)) (Fin 0))
           (map2 (\<and>) (map (\<lambda>x. fge x (Fin (1/2))) xs) (map isnan ts)) (Fin 1)
         = bce_neutral_target xs ts"
  using assms
  by (induction xs ts rule: list_induct2)
     (auto simp: masked_fill_def bce_neutral_target_def dest: flt_not_fge)

lemma BCELossIPU_neutralize_eval:
  assumes len: "length xs = length ts" and wb: "weight_broadcastable self (length ts)"
  shows "BCELossIPU_neutralize self xs ts =
           Inr (bce_neutral_target xs ts, zero_at_missing ts (expanded_weight self (length ts)),
                map isnan ts)"
  using len length_expanded_weight[OF wb]
  by (simp add: BCELossIPU_neutralize_def layer_weight_eval[OF wb] Let_def broadcast_and_def
      bce_masks masked_fill_isnan)

lemma BCELoss_forward_weighted:
  assumes "length ts = length xs" "length ws = length xs" "list_all in_unit xs"
  shows "BCELoss_forward (Some ws) xs ts = Inr (tmean (map2 fmul (map2 bce_term xs ts) ws))"
  using assms
  by (simp add: BCELoss_forward_def broadcast_weight_def infer_size_def expand_def
      binary_cross_entropy_def)

lemma bce_term_masked_zero:
  assumes "in_unit x" "isnan t"
  shows "fmul (bce_term x (if flt x (Fin (1/2)) then Fin 0
                           else if fge x (Fin (1/2)) then Fin 1 else t)) (Fin 0) = Fin 0"
proof -
  obtain p where "x = Fin p" using in_unit_Fin[OF assms(1)] by blast
  then show ?thesis by (simp add: bce_term_def fsub_def)
qed


lemma BCELossIPU_forward_eval:
  assumes len: "length xs = length ts" and unit: "list_all in_unit xs"
    and wb: "weight_broadcastable self (length ts)"
  shows "BCELossIPU_forward self xs ts =
           (self, Inr (fdiv (fmul (tmean (map2 fmul (map2 bce_term xs (bce_neutral_target xs ts))
                                     (zero_at_missing ts (expanded_weight self (length ts)))))
                               (of_count (length ts)))
                         (of_count (observed ts))))"
proof -
  let ?W = "zero_at_missing ts (expanded_weight self (length ts))"
  have "BCELoss_forward (Some ?W) xs (bce_neutral_target xs ts)
        = Inr (tmean (map2 fmul (map2 bce_term xs (bce_neutral_target xs ts)) ?W))"
    using len length_expanded_weight[OF wb] unit
    by (intro BCELoss_forward_weighted) (simp_all add: bce_neutral_target_def zero_at_missing_def)
  then show ?thesis
    by (simp add: BCELossIPU_forward_def BCELossIPU_neutralize_eval[OF len wb] Let_def
        numel_def count_not_isnan)
qed






subsection \<open>When the masked binary cross-entropy returns\<close>

lemma BCELossIPU_neutralize_mask:
  assumes "BCELossIPU_neutralize self xs ts = Inr (T, W, m)"
  shows "m = map isnan ts"
  using assms
  by (auto simp: BCELossIPU_neutralize_def Let_def split: sum.splits if_splits option.splits)


lemma length_broadcast_and:
  "broadcast_and a b = Inr c \<Longrightarrow> length c = (if length a = 1 then length b else if length b = 1 then length a else length b)"
  by (auto simp: broadcast_and_def split: if_splits list.splits)

lemma BCELossIPU_neutralize_lengths:
  assumes "BCELossIPU_neutralize self xs ts = Inr (T, W, m)"
  shows "length T = length ts \<and> weight_broadcastable self (length ts)"
proof -
  from assms obtain W1 m0 m1 where
      w1: "(case weight self of
              Some w \<Rightarrow>
                (case infer_size (length ts) (length w) of
                   Inl e \<Rightarrow> Inl e
                 | Inr new_size \<Rightarrow> expand w new_size)
            | None \<Rightarrow> Inr (replicate (length ts) (Fin 1))) = Inr W1"
      and lw: "length W1 = length ts"
      and m0: "broadcast_and (map (\<lambda>x. flt x (Fin (1/2))) xs) (map isnan ts) = Inr m0"
      and m1: "broadcast_and (map (\<lambda>x. fge x (Fin (1/2))) xs) (map isnan ts) = Inr m1"
      and l0: "length m0 = length ts"
      and T: "T = masked_fill (masked_fill ts m0 (Fin 0)) m1 (Fin 1)"
    by (auto simp: BCELossIPU_neutralize_def Let_def split: sum.splits if_splits)
  have "length m1 = length m0"
    using length_broadcast_and[OF m0] length_broadcast_and[OF m1] by simp
  then have "length T = length ts" using T l0 by (simp add: masked_fill_def)
  moreover have "weight_broadcastable self (length ts)"
    using w1 lw
    by (auto simp: weight_broadcastable_def infer_size_def expand_def
        split: option.splits if_splits list.splits)
  ultimately show ?thesis by simp
qed

lemma BCELoss_forward_returns:
  assumes "BCELoss_forward wt xs ts = Inr v"
  shows "length ts = length xs \<and> list_all in_unit xs"
  using assms
  by (auto simp: BCELoss_forward_def binary_cross_entropy_def split: if_splits sum.splits)

lemma BCELossIPU_forward_returns:
  assumes "snd (BCELossIPU_forward self xs ts) = Inr v"
  shows "length xs = length ts \<and> list_all in_unit xs \<and> weight_broadcastable self (length ts)"
proof -
  from assms obtain T W m loss where n: "BCELossIPU_neutralize self xs ts = Inr (T, W, m)"
      and l: "BCELoss_forward (Some W) xs T = Inr loss"
    by (auto simp: BCELossIPU_forward_def Let_def split: sum.splits)
  show ?thesis
    using BCELossIPU_neutralize_lengths[OF n] BCELoss_forward_returns[OF l] by simp
qed

lemma tsum_zeros: "\<forall>x\<in>set xs. x = Fin 0 \<Longrightarrow> tsum xs = Fin 0"
  by (induction xs) simp_all

lemma rescale_all_missing:
  assumes "tsum zs = Fin 0"
  shows "fdiv (fmul (tmean zs) (of_count n)) (of_count 0) = NaN"
  using assms by (simp add: tmean_def of_count_def)

lemma zero_at_missing_all:
  "length xs = length ts \<Longrightarrow> \<forall>t\<in>set ts. isnan t \<Longrightarrow>
   zero_at_missing ts xs = replicate (length ts) (Fin 0)"
  by (induction xs ts rule: list_induct2) (simp_all add: zero_at_missing_def)

lemma map2_replicate_const:
  "map2 f (replicate n a) (replicate n b) = replicate n (f a b)"
  by (induction n) simp_all

lemma bce_all_missing_terms:
  assumes "length xs = length ts" "length ts = length ws" "list_all in_unit xs"
    "\<forall>t\<in>set ts. isnan t"
  shows "\<forall>z\<in>set (map2 fmul (map2 bce_term xs (bce_neutral_target xs ts)) (zero_at_missing ts ws)).
           z = Fin 0"
  using assms
proof (induction xs ts ws rule: list_induct3)
  case Nil
  then show ?case by (simp add: bce_neutral_target_def zero_at_missing_def)
next
  case (Cons x xs t ts w ws)
  then have "in_unit x" "isnan t" by simp_all
  from bce_term_masked_zero[OF this] Cons show ?case
    by (simp add: bce_neutral_target_def zero_at_missing_def)
qed


section \<open>The exact arithmetic as a case of the rounded one\<close>

lemma round_val_Exact: "round_val Exact v = v"
  by (cases v) simp_all

lemma rops_Exact:
  "radd Exact = fadd" "rsub Exact = fsub" "rmul Exact = fmul" "rdiv Exact = fdiv"
  by (simp_all add: fun_eq_iff radd_def rsub_def rmul_def rdiv_def round_val_Exact)

lemma rcount_Exact: "rcount Exact n = of_count n"
  by (simp add: rcount_def of_count_def)

lemma rsum_Exact: "rsum Exact ts = tsum ts"
  by (induction ts) (simp_all add: rops_Exact)

lemma rterms_Exact:
  "rsq_err Exact = sq_err" "rabs_err Exact = abs_err" "rbce_term Exact = bce_term"
  by (simp_all add: fun_eq_iff rsq_err_def sq_err_def rabs_err_def abs_err_def rbce_term_def
      bce_term_def rops_Exact round_val_Exact)


lemma rescale1_Exact: "rescale1 Exact n k v = fdiv (fmul v (of_count n)) (of_count k)"
  by (simp add: rescale1_def rops_Exact rcount_Exact)







lemma MSELossIPU_forward_cfg_eval:
  assumes "length xs = length ts"
  shows "MSELossIPU_forward_cfg ar red xs ts =
         Inr (rescale ar (MSELoss_forward_cfg ar red (zero_at_missing ts xs) (zero_at_missing ts ts))
                (length ts) (observed ts))"
  using assms
  by (simp add: MSELossIPU_forward_cfg_def Let_def masked_fill_isnan count_not_isnan numel_def)

lemma L1LossIPU_forward_cfg_eval:
  assumes "length xs = length ts"
  shows "L1LossIPU_forward_cfg ar red xs ts =
         Inr (rescale ar (L1Loss_forward_cfg ar red (zero_at_missing ts xs) (zero_at_missing ts ts))
                (length ts) (observed ts))"
  using assms
  by (simp add: L1LossIPU_forward_cfg_def Let_def masked_fill_isnan count_not_isnan numel_def)



lemma float32_trimmed_mse:
  "MSELoss_forward_cfg float32 ReduceMean [Fin 4, Fin 4, Fin 5] [Fin 0, Fin 0, Fin 0]
   = Scalar (Fin 19)"
  by code_simp

lemma float32_raw_mse:
  "MSELoss_forward_cfg float32 ReduceMean
     [Fin 4, Fin 4, Fin 5, Fin 0, Fin 0, Fin 0, Fin 0] [Fin 0, Fin 0, Fin 0, Fin 0, Fin 0, Fin 0, Fin 0]
   = Scalar (Fin (8538405 / 1048576))"
  by code_simp

lemma float32_rescale:
  "rescale float32 (Scalar (Fin (8538405 / 1048576))) 7 3 = Scalar (Fin (9961473 / 524288))"
  by code_simp

section \<open>The claims on the masked metric layer\<close>




lemma masked_mse_example: "MSELossIPU_forward [Fin 1, Fin 3] [Fin 3, NaN] = Inr (Fin 4)"
  by (simp add: MSELossIPU_forward_def MSELoss_forward_def Let_def masked_fill_def tmean_def
      numel_def count_not_def of_count_def sq_err_def fsub_def)

lemma masked_bce_example:
  "snd (BCELossIPU_forward \<lparr>weight = None\<rparr> [Fin 0, Fin 0] [Fin 1, NaN]) = Inr (Fin 100)"
  by (simp add: BCELossIPU_forward_def BCELossIPU_neutralize_def BCELoss_forward_def Let_def
      broadcast_and_def broadcast_weight_def infer_size_def expand_def binary_cross_entropy_def
      in_unit_def masked_fill_def tmean_def numel_def count_not_def of_count_def bce_term_def
      fsub_def clamped_log_def)

text \<open>
  C4. For every reduction mode and every format, each masked loss returns the reduced
  loss of the underlying statistic on the neutralised tensors, multiplied by the
  number of elements and divided by the number of targets that are not missing, in the
  order the code writes it: \<open>(loss * numel) / count\<close>.
\<close>

theorem rescale_by_observed_count:
  "(length input = length target \<longrightarrow>
      MSELossIPU_forward_cfg ar red input target
        = Inr (rescale ar
                 (MSELoss_forward_cfg ar red (zero_at_missing target input)
                    (zero_at_missing target target))
                 (length target) (observed target))
    \<and> L1LossIPU_forward_cfg ar red input target
        = Inr (rescale ar
                 (L1Loss_forward_cfg ar red (zero_at_missing target input)
                    (zero_at_missing target target))
                 (length target) (observed target))
    \<and> MSELossIPU_forward input target
        = Inr (fdiv (fmul (MSELoss_forward (zero_at_missing target input)
                             (zero_at_missing target target))
                       (of_count (length target))) (of_count (observed target)))
    \<and> L1LossIPU_forward input target
        = Inr (fdiv (fmul (L1Loss_forward (zero_at_missing target input)
                             (zero_at_missing target target))
                       (of_count (length target))) (of_count (observed target))))
   \<and> (BCELossIPU_neutralize self input target = Inr (T, W, m)
        \<and> BCELoss_forward_cfg ar red (Some W) input T = Inr l \<longrightarrow>
      snd (BCELossIPU_forward_cfg ar red self input target)
        = Inr (rescale ar l (length target) (observed target)))
   \<and> rescale ar (Scalar v) n k = Scalar (rdiv ar (rmul ar v (rcount ar n)) (rcount ar k))
   \<and> rescale ar (Elementwise vs) n k
        = Elementwise (map (\<lambda>v. rdiv ar (rmul ar v (rcount ar n)) (rcount ar k)) vs)"
proof -
  have "snd (BCELossIPU_forward_cfg ar red self input target)
        = Inr (rescale ar l (length target) (observed target))"
    if n: "BCELossIPU_neutralize self input target = Inr (T, W, m)"
      and l: "BCELoss_forward_cfg ar red (Some W) input T = Inr l"
  proof -
    have m: "m = map isnan target" using n by (rule BCELossIPU_neutralize_mask)
    show ?thesis
      using n l by (simp add: BCELossIPU_forward_cfg_def Let_def m numel_def count_not_isnan)
  qed
  moreover have "rescale1 ar n k = (\<lambda>v. rdiv ar (rmul ar v (rcount ar n)) (rcount ar k))"
    by (simp add: fun_eq_iff rescale1_def)
  ultimately show ?thesis
    by (simp add: MSELossIPU_forward_cfg_eval L1LossIPU_forward_cfg_eval
        MSELossIPU_forward_eval L1LossIPU_forward_eval)
qed

theorem rescale_by_observed_count_witness:
  "length [Fin 4, Fin 4, Fin 5, Fin 0, Fin 0, Fin 0, Fin 0]
     = length [Fin 0, Fin 0, Fin 0, NaN, NaN, NaN, NaN]
   \<and> MSELoss_forward_cfg float32 ReduceMean
         [Fin 4, Fin 4, Fin 5, Fin 0, Fin 0, Fin 0, Fin 0]
         [Fin 0, Fin 0, Fin 0, Fin 0, Fin 0, Fin 0, Fin 0]
       = Scalar (Fin (8538405 / 1048576))
   \<and> MSELossIPU_forward_cfg float32 ReduceMean
         [Fin 4, Fin 4, Fin 5, Fin 0, Fin 0, Fin 0, Fin 0]
         [Fin 0, Fin 0, Fin 0, NaN, NaN, NaN, NaN]
       = Inr (rescale float32 (Scalar (Fin (8538405 / 1048576))) 7 3)
   \<and> rescale float32 (Scalar (Fin (8538405 / 1048576))) 7 3 = Scalar (Fin (9961473 / 524288))
   \<and> BCELossIPU_neutralize \<lparr>weight = None\<rparr> [Fin 0, Fin 1, Fin 1] [Fin 1, NaN, Fin 1]
       = Inr ([Fin 1, Fin 1, Fin 1], [Fin 1, Fin 0, Fin 1], [False, True, False])
   \<and> BCELoss_forward_cfg Exact ReduceSum (Some [Fin 1, Fin 0, Fin 1]) [Fin 0, Fin 1, Fin 1]
         [Fin 1, Fin 1, Fin 1]
       = Inr (Scalar (Fin 100))
   \<and> snd (BCELossIPU_forward_cfg Exact ReduceSum \<lparr>weight = None\<rparr> [Fin 0, Fin 1, Fin 1]
            [Fin 1, NaN, Fin 1])
       = Inr (Scalar (Fin 150))"
proof -
  have n: "BCELossIPU_neutralize \<lparr>weight = None\<rparr> [Fin 0, Fin 1, Fin 1] [Fin 1, NaN, Fin 1]
       = Inr ([Fin 1, Fin 1, Fin 1], [Fin 1, Fin 0, Fin 1], [False, True, False])"
    by (simp add: BCELossIPU_neutralize_def Let_def broadcast_and_def masked_fill_def
        numeral_3_eq_3)
  have l: "BCELoss_forward_cfg Exact ReduceSum (Some [Fin 1, Fin 0, Fin 1]) [Fin 0, Fin 1, Fin 1]
         [Fin 1, Fin 1, Fin 1] = Inr (Scalar (Fin 100))"
    by (simp add: BCELoss_forward_cfg_def broadcast_weight_def infer_size_def expand_def
        binary_cross_entropy_cfg_def in_unit_def rsum_Exact rterms_Exact rops_Exact
        bce_term_def fsub_def clamped_log_def)
  have z: "zero_at_missing [Fin 0, Fin 0, Fin 0, NaN, NaN, NaN, NaN]
             [Fin 4, Fin 4, Fin 5, Fin 0, Fin 0, Fin 0, Fin 0]
           = [Fin 4, Fin 4, Fin 5, Fin 0, Fin 0, Fin 0, Fin 0]"
      "zero_at_missing [Fin 0, Fin 0, Fin 0, NaN, NaN, NaN, NaN]
             [Fin 0, Fin 0, Fin 0, NaN, NaN, NaN, NaN]
           = [Fin 0, Fin 0, Fin 0, Fin 0, Fin 0, Fin 0, Fin 0]"
      "observed [Fin 0, Fin 0, Fin 0, NaN, NaN, NaN, NaN] = 3"
      "observed [Fin 1, NaN, Fin 1] = 2"
    by (simp_all add: zero_at_missing_def observed_def)
  have len: "length [Fin 0, Fin 0, Fin 0, NaN, NaN, NaN, NaN] = 7"
    "length [Fin 1, NaN, Fin 1] = 3" by simp_all
  have r: "rescale Exact (Scalar (Fin 100)) 3 2 = Scalar (Fin 150)"
    by (simp add: rescale1_Exact of_count_def)
  have h: "length [Fin 4, Fin 4, Fin 5, Fin 0, Fin 0, Fin 0, Fin 0]
     = length [Fin 0, Fin 0, Fin 0, NaN, NaN, NaN, NaN]" by simp
  from rescale_by_observed_count[where ar = float32 and red = ReduceMean
        and input = "[Fin 4, Fin 4, Fin 5, Fin 0, Fin 0, Fin 0, Fin 0]"
        and target = "[Fin 0, Fin 0, Fin 0, NaN, NaN, NaN, NaN]"] h
  have "MSELossIPU_forward_cfg float32 ReduceMean
         [Fin 4, Fin 4, Fin 5, Fin 0, Fin 0, Fin 0, Fin 0]
         [Fin 0, Fin 0, Fin 0, NaN, NaN, NaN, NaN]
       = Inr (rescale float32
                 (MSELoss_forward_cfg float32 ReduceMean
                    (zero_at_missing [Fin 0, Fin 0, Fin 0, NaN, NaN, NaN, NaN]
                       [Fin 4, Fin 4, Fin 5, Fin 0, Fin 0, Fin 0, Fin 0])
                    (zero_at_missing [Fin 0, Fin 0, Fin 0, NaN, NaN, NaN, NaN]
                       [Fin 0, Fin 0, Fin 0, NaN, NaN, NaN, NaN]))
                 (length [Fin 0, Fin 0, Fin 0, NaN, NaN, NaN, NaN])
                 (observed [Fin 0, Fin 0, Fin 0, NaN, NaN, NaN, NaN]))"
    by blast
  then have mse: "MSELossIPU_forward_cfg float32 ReduceMean
         [Fin 4, Fin 4, Fin 5, Fin 0, Fin 0, Fin 0, Fin 0]
         [Fin 0, Fin 0, Fin 0, NaN, NaN, NaN, NaN]
       = Inr (rescale float32 (Scalar (Fin (8538405 / 1048576))) 7 3)"
    by (simp only: z len float32_raw_mse)
  from rescale_by_observed_count[where ar = Exact and red = ReduceSum
        and self = "\<lparr>weight = None\<rparr>"
        and input = "[Fin 0, Fin 1, Fin 1]" and target = "[Fin 1, NaN, Fin 1]"
        and T = "[Fin 1, Fin 1, Fin 1]" and W = "[Fin 1, Fin 0, Fin 1]"
        and m = "[False, True, False]" and l = "Scalar (Fin 100)"] n l
  have "snd (BCELossIPU_forward_cfg Exact ReduceSum \<lparr>weight = None\<rparr> [Fin 0, Fin 1, Fin 1]
            [Fin 1, NaN, Fin 1])
       = Inr (rescale Exact (Scalar (Fin 100)) (length [Fin 1, NaN, Fin 1])
                (observed [Fin 1, NaN, Fin 1]))"
    by blast
  then have bce: "snd (BCELossIPU_forward_cfg Exact ReduceSum \<lparr>weight = None\<rparr>
            [Fin 0, Fin 1, Fin 1] [Fin 1, NaN, Fin 1]) = Inr (Scalar (Fin 150))"
    by (simp only: z len r)
  show ?thesis
    by (intro conjI h float32_raw_mse mse float32_rescale n l bce)
qed

text \<open>
  C5, as the code has it. In the masked binary cross-entropy, at every position whose
  target is missing the weight is 0, and the target the loss is computed with is 0 when
  the prediction is below 0.5, 1 when the prediction is 0.5 or more, and left NaN when
  the prediction is itself NaN (both comparisons of lines 34 and 35 are then false).
  The operation yields that target and weight on tensors of one size whenever the
  layer's weight can be broadcast.
\<close>

theorem bce_substitution_by_prediction:
  assumes "length input = length target" and "weight_broadcastable self (length target)"
  shows "\<exists>T W. BCELossIPU_neutralize self input target = Inr (T, W, map isnan target)
           \<and> length T = length target \<and> length W = length target
           \<and> (\<forall>i<length target. isnan (target ! i) \<longrightarrow>
                 W ! i = Fin 0
               \<and> (flt (input ! i) (Fin (1/2)) \<longrightarrow> T ! i = Fin 0)
               \<and> (\<not> flt (input ! i) (Fin (1/2)) \<and> \<not> isnan (input ! i) \<longrightarrow> T ! i = Fin 1)
               \<and> (isnan (input ! i) \<longrightarrow> T ! i = NaN))"
proof -
  let ?T = "bce_neutral_target input target"
  let ?W = "zero_at_missing target (expanded_weight self (length target))"
  have lw: "length (expanded_weight self (length target)) = length target"
    using assms(2) by (rule length_expanded_weight)
  have ge: "fge x (Fin (1/2))" if "\<not> flt x (Fin (1/2))" "\<not> isnan x" for x
    using that by (cases x) simp_all
  have nn: "x = NaN" if "isnan x" for x using that by (cases x) simp_all
  have "BCELossIPU_neutralize self input target = Inr (?T, ?W, map isnan target)"
    using assms by (rule BCELossIPU_neutralize_eval)
  moreover have "length ?T = length target" "length ?W = length target"
    using assms(1) lw by (simp_all add: bce_neutral_target_def zero_at_missing_def)
  moreover have "?W ! i = Fin 0
               \<and> (flt (input ! i) (Fin (1/2)) \<longrightarrow> ?T ! i = Fin 0)
               \<and> (\<not> flt (input ! i) (Fin (1/2)) \<and> \<not> isnan (input ! i) \<longrightarrow> ?T ! i = Fin 1)
               \<and> (isnan (input ! i) \<longrightarrow> ?T ! i = NaN)"
    if "i < length target" "isnan (target ! i)" for i
    using that assms(1) lw ge[of "input ! i"] nn[of "input ! i"] nn[of "target ! i"]
    by (auto simp: bce_neutral_target_def zero_at_missing_def)
  ultimately show ?thesis by blast
qed

theorem bce_substitution_by_prediction_witness:
  "length [Fin (1/4), Fin (3/4), NaN, Fin 1] = length [NaN, NaN, NaN, Fin 0]
   \<and> weight_broadcastable \<lparr>weight = Some [Fin 2]\<rparr> 4
   \<and> BCELossIPU_neutralize \<lparr>weight = Some [Fin 2]\<rparr>
         [Fin (1/4), Fin (3/4), NaN, Fin 1] [NaN, NaN, NaN, Fin 0]
       = Inr ([Fin 0, Fin 1, NaN, Fin 0], [Fin 0, Fin 0, Fin 0, Fin 2],
              [True, True, True, False])"
proof -
  have h1: "length [Fin (1/4), Fin (3/4), NaN, Fin 1] = length [NaN, NaN, NaN, Fin 0]"
    by simp
  have h2: "weight_broadcastable \<lparr>weight = Some [Fin 2]\<rparr> (length [NaN, NaN, NaN, Fin 0])"
    by (simp add: weight_broadcastable_def)
  from bce_substitution_by_prediction[OF h1 h2]
  obtain T W where n: "BCELossIPU_neutralize \<lparr>weight = Some [Fin 2]\<rparr>
        [Fin (1/4), Fin (3/4), NaN, Fin 1] [NaN, NaN, NaN, Fin 0]
          = Inr (T, W, map isnan [NaN, NaN, NaN, Fin 0])"
    by blast
  then show ?thesis
    by (simp add: BCELossIPU_neutralize_def Let_def broadcast_and_def masked_fill_def
        infer_size_def expand_def weight_broadcastable_def numeral_eq_Suc)
qed

text \<open>
  The claim as it is worded fails where the prediction is NaN: it is not below 0.5, so
  the claim has the target set to 1, and the code leaves it NaN.
\<close>

theorem bce_nan_prediction_keeps_nan_target:
  "BCELossIPU_neutralize \<lparr>weight = None\<rparr> [NaN, Fin (3/4)] [NaN, NaN]
     = Inr ([NaN, Fin 1], [Fin 0, Fin 0], [True, True])
   \<and> isnan ([NaN, NaN] ! 0) \<and> \<not> flt ([NaN, Fin (3/4)] ! 0) (Fin (1/2))
   \<and> [NaN, Fin 1] ! 0 \<noteq> Fin 1"
  by (simp add: BCELossIPU_neutralize_def Let_def broadcast_and_def masked_fill_def)

text \<open>
  C6. When every target is missing, each masked loss either raises or returns NaN.
\<close>

theorem all_missing_is_nan:
  assumes "\<forall>t\<in>set target. isnan t"
  shows "(MSELossIPU_forward input target = Inr NaN
            \<or> (\<exists>e. MSELossIPU_forward input target = Inl e))
       \<and> (L1LossIPU_forward input target = Inr NaN
            \<or> (\<exists>e. L1LossIPU_forward input target = Inl e))
       \<and> (snd (BCELossIPU_forward self input target) = Inr NaN
            \<or> (\<exists>e. snd (BCELossIPU_forward self input target) = Inl e))"
proof -
  have k: "observed target = 0" using assms by (rule observed_none)
  have elementwise: "fdiv (fmul (tmean (map2 f (zero_at_missing target input)
                        (zero_at_missing target target))) (of_count (length target)))
                      (of_count (observed target)) = NaN"
    if len: "length input = length target" and f0: "f (Fin 0) (Fin 0) = Fin 0" for f
    unfolding k
    by (rule rescale_all_missing)
       (simp add: zero_at_missing_all[OF len assms] zero_at_missing_all[OF refl assms]
          map2_replicate_const f0 tsum_zeros)
  have mse: "MSELossIPU_forward input target = Inr NaN" if "length input = length target"
    using elementwise[of sq_err, OF that sq_err_zero]
    by (simp add: MSELossIPU_forward_eval[OF that] MSELoss_forward_def)
  have mse': "\<exists>e. MSELossIPU_forward input target = Inl e" if "length input \<noteq> length target"
    using that by (simp add: MSELossIPU_forward_def Let_def)
  have l1: "L1LossIPU_forward input target = Inr NaN" if "length input = length target"
    using elementwise[of abs_err, OF that abs_err_zero]
    by (simp add: L1LossIPU_forward_eval[OF that] L1Loss_forward_def)
  have l1': "\<exists>e. L1LossIPU_forward input target = Inl e" if "length input \<noteq> length target"
    using that by (simp add: L1LossIPU_forward_def Let_def)
  have bce: "v = NaN" if r: "snd (BCELossIPU_forward self input target) = Inr v" for v
  proof -
    from BCELossIPU_forward_returns[OF r]
    have len: "length input = length target" and unit: "list_all in_unit input"
      and wb: "weight_broadcastable self (length target)" by simp_all
    have "tsum (map2 fmul (map2 bce_term input (bce_neutral_target input target))
             (zero_at_missing target (expanded_weight self (length target)))) = Fin 0"
      by (rule tsum_zeros, rule bce_all_missing_terms[OF len length_expanded_weight[OF wb, symmetric] unit assms])
    from rescale_all_missing[OF this] r show ?thesis
      by (simp add: BCELossIPU_forward_eval[OF len unit wb] k)
  qed
  have "snd (BCELossIPU_forward self input target) = Inr NaN
            \<or> (\<exists>e. snd (BCELossIPU_forward self input target) = Inl e)"
    using bce by (cases "snd (BCELossIPU_forward self input target)") auto
  then show ?thesis
    using mse mse' l1 l1' by blast
qed

theorem all_missing_is_nan_witness:
  "isnan NaN
   \<and> MSELossIPU_forward [Fin 1, Fin 0] [NaN, NaN] = Inr NaN
   \<and> L1LossIPU_forward [Fin 1, Fin 0] [NaN, NaN] = Inr NaN
   \<and> snd (BCELossIPU_forward \<lparr>weight = None\<rparr> [Fin 1, Fin 0] [NaN, NaN]) = Inr NaN
   \<and> MSELossIPU_forward [Fin 1] [NaN, NaN] = Inl IndexError
   \<and> snd (BCELossIPU_forward \<lparr>weight = None\<rparr> [Fin 2, Fin 0] [NaN, NaN]) = Inl RuntimeError"
proof -
  have a: "MSELossIPU_forward [Fin 1, Fin 0] [NaN, NaN] \<noteq> Inl e"
    "L1LossIPU_forward [Fin 1, Fin 0] [NaN, NaN] \<noteq> Inl e"
    "snd (BCELossIPU_forward \<lparr>weight = None\<rparr> [Fin 1, Fin 0] [NaN, NaN]) \<noteq> Inl e" for e
    by (simp_all add: MSELossIPU_forward_def L1LossIPU_forward_def BCELossIPU_forward_def
        BCELossIPU_neutralize_def BCELoss_forward_def Let_def
        broadcast_and_def broadcast_weight_def infer_size_def expand_def
        binary_cross_entropy_def in_unit_def masked_fill_def)
  have b: "MSELossIPU_forward [Fin 1] [NaN, NaN] = Inl IndexError"
    "snd (BCELossIPU_forward \<lparr>weight = None\<rparr> [Fin 2, Fin 0] [NaN, NaN]) = Inl RuntimeError"
    by (simp_all add: MSELossIPU_forward_def BCELossIPU_forward_def
        BCELossIPU_neutralize_def BCELoss_forward_def Let_def
        broadcast_and_def broadcast_weight_def infer_size_def expand_def
        binary_cross_entropy_def in_unit_def masked_fill_def)
  show ?thesis
    using all_missing_is_nan[of "[NaN, NaN]" "[Fin 1, Fin 0]" "\<lparr>weight = None\<rparr>"] a b
    by simp
qed

text \<open>
  C10. When \<open>BCELossIPU.forward\<close> returns, the layer's weight is what it was before
  the call, so a second call on the layer with the same tensors returns the same.
\<close>

theorem bce_weight_restored:
  assumes "snd (BCELossIPU_forward self input target) = Inr loss"
  shows "weight (fst (BCELossIPU_forward self input target)) = weight self
       \<and> fst (BCELossIPU_forward self input target) = self
       \<and> BCELossIPU_forward (fst (BCELossIPU_forward self input target)) input target
           = BCELossIPU_forward self input target"
proof -
  have "fst (BCELossIPU_forward self input target) = self"
    using assms
    by (auto simp: BCELossIPU_forward_def Let_def split: sum.splits)
  then show ?thesis by simp
qed

theorem bce_weight_restored_witness:
  "snd (BCELossIPU_forward \<lparr>weight = Some [Fin 2]\<rparr> [Fin 0, Fin 1] [Fin 1, NaN]) = Inr (Fin 200)
   \<and> weight (fst (BCELossIPU_forward \<lparr>weight = Some [Fin 2]\<rparr> [Fin 0, Fin 1] [Fin 1, NaN]))
       = Some [Fin 2]
   \<and> BCELossIPU_forward
         (fst (BCELossIPU_forward \<lparr>weight = Some [Fin 2]\<rparr> [Fin 0, Fin 1] [Fin 1, NaN]))
         [Fin 0, Fin 1] [Fin 1, NaN]
       = (\<lparr>weight = Some [Fin 2]\<rparr>, Inr (Fin 200))"
proof -
  have r: "BCELossIPU_forward \<lparr>weight = Some [Fin 2]\<rparr> [Fin 0, Fin 1] [Fin 1, NaN]
           = (\<lparr>weight = Some [Fin 2]\<rparr>, Inr (Fin 200))"
    by (simp add: BCELossIPU_forward_def BCELossIPU_neutralize_def BCELoss_forward_def Let_def
      broadcast_and_def broadcast_weight_def infer_size_def expand_def binary_cross_entropy_def
      in_unit_def masked_fill_def tmean_def numel_def count_not_def of_count_def bce_term_def
      fsub_def clamped_log_def)
  then have "snd (BCELossIPU_forward \<lparr>weight = Some [Fin 2]\<rparr> [Fin 0, Fin 1] [Fin 1, NaN])
             = Inr (Fin 200)" by simp
  from bce_weight_restored[OF this] r show ?thesis by simp
qed

text \<open>The weight is not put back when the underlying loss raises.\<close>

lemma bce_weight_on_raise:
  "BCELossIPU_forward \<lparr>weight = None\<rparr> [Fin 2, Fin 0] [Fin 1, NaN]
     = (\<lparr>weight = Some [Fin 1, Fin 0]\<rparr>, Inl RuntimeError)"
  by (simp add: BCELossIPU_forward_def BCELossIPU_neutralize_def BCELoss_forward_def Let_def
      broadcast_and_def broadcast_weight_def infer_size_def expand_def binary_cross_entropy_def
      in_unit_def masked_fill_def)

text \<open>
  C7. Precision, accuracy and recall hand the underlying statistic, at every position
  whose target is missing, the target class 1 and the prediction 0, and the other
  positions as they are; the statistic is given no weight.
\<close>

theorem fixed_class_substitution:
  assumes "length preds = length target"
  shows "precision_ipu stat preds target kw
           = stat (map2 (\<lambda>t x. if isnan t then Fin 0 else x) target preds)
               (map (\<lambda>t. if isnan t then 1 else to_int t) target) kw
       \<and> accuracy_ipu stat preds target kw
           = stat (map2 (\<lambda>t x. if isnan t then Fin 0 else x) target preds)
               (map (\<lambda>t. if isnan t then 1 else to_int t) target) kw
       \<and> recall_ipu stat preds target kw
           = stat (map2 (\<lambda>t x. if isnan t then Fin 0 else x) target preds)
               (map (\<lambda>t. if isnan t then 1 else to_int t) target) kw"
proof -
  have p: "masked_fill preds (map isnan target) (Fin 0)
           = map2 (\<lambda>t x. if isnan t then Fin 0 else x) target preds"
    using assms by (induction preds target rule: list_induct2) (simp_all add: masked_fill_def)
  have t: "map to_int (masked_fill target (map isnan target) (Fin 1))
           = map (\<lambda>t. if isnan t then 1 else to_int t) target"
    by (induction target) (simp_all add: masked_fill_def)
  have "fixed_class_neutralize preds target
        = Inr (map2 (\<lambda>t x. if isnan t then Fin 0 else x) target preds,
               masked_fill target (map isnan target) (Fin 1))"
    using assms by (simp add: fixed_class_neutralize_def Let_def p)
  then show ?thesis
    by (simp add: precision_ipu_def accuracy_ipu_def recall_ipu_def t)
qed

theorem fixed_class_substitution_witness:
  "length [Fin (1/5), Fin (7/10), Fin (9/10)] = length [Fin 0, NaN, Fin 1]
   \<and> precision_ipu (\<lambda>p t k. Inr (p, t)) [Fin (1/5), Fin (7/10), Fin (9/10)] [Fin 0, NaN, Fin 1] ()
       = Inr ([Fin (1/5), Fin 0, Fin (9/10)], [0, 1, 1])
   \<and> accuracy_ipu (\<lambda>p t k. Inr (p, t)) [Fin (1/5), Fin (7/10), Fin (9/10)] [Fin 0, NaN, Fin 1] ()
       = Inr ([Fin (1/5), Fin 0, Fin (9/10)], [0, 1, 1])
   \<and> recall_ipu (\<lambda>p t k. Inr (p, t)) [Fin (1/5), Fin (7/10), Fin (9/10)] [Fin 0, NaN, Fin 1] ()
       = Inr ([Fin (1/5), Fin 0, Fin (9/10)], [0, 1, 1])"
  using fixed_class_substitution[of "[Fin (1/5), Fin (7/10), Fin (9/10)]" "[Fin 0, NaN, Fin 1]"
      "\<lambda>p t k. Inr (p, t)" "()"]
  by simp

text \<open>
  C8, at the input where it fails: \<open>auroc_ipu\<close> and \<open>average_precision_ipu\<close> clone the
  predictions and the target, which are left as they were, and assign into the
  caller's \<open>sample_weights\<close> (address 2 below), which loses its weight at the missing
  target.
\<close>

theorem ranking_metrics_overwrite_sample_weights:
  "fst (auroc_ipu (\<lambda>p t k w. Inr (p, t, w))
          [[Fin (1/5), Fin (7/10)], [Fin 1, NaN], [Fin 1, Fin 1]] 0 1 () (Some 2))
     = [[Fin (1/5), Fin (7/10)], [Fin 1, NaN], [Fin 1, Fin 0],
        [Fin 1, Fin 0], [Fin (1/5), Fin 0]]
   \<and> fst (average_precision_ipu (\<lambda>p t k w. Inr (p, t, w))
          [[Fin (1/5), Fin (7/10)], [Fin 1, NaN], [Fin 1, Fin 1]] 0 1 () (Some 2))
     = [[Fin (1/5), Fin (7/10)], [Fin 1, NaN], [Fin 1, Fin 0],
        [Fin 1, Fin 0], [Fin (1/5), Fin 0]]"
  by (simp add: auroc_ipu_def average_precision_ipu_def clone_def alloc_def index_put_def
      masked_fill_def Let_def)

section \<open>The layer's weight and the all-missing input in every configuration\<close>

text \<open>
  The weight of the layer is put back, and an input with every target missing gives
  NaN or an error, for every reduction mode and every format.
\<close>

lemma bce_weight_restored_cfg:
  assumes "snd (BCELossIPU_forward_cfg ar red self input target) = Inr l"
  shows "fst (BCELossIPU_forward_cfg ar red self input target) = self"
  using assms
  by (auto simp: BCELossIPU_forward_cfg_def Let_def split: sum.splits)

lemma rnd_zero: "rnd ar 0 = Fin 0"
  by (cases ar) simp_all

lemma rnd_count_cases: "(\<exists>x. rcount ar n = Fin x) \<or> rcount ar n = PInf"
proof (cases ar)
  case Exact
  then show ?thesis by (simp add: rcount_def)
next
  case (Binary p emax)
  then show ?thesis by (simp add: rcount_def Let_def)
qed

lemma radd_zero_or_nan: "zero_or_nan a \<Longrightarrow> zero_or_nan b \<Longrightarrow> zero_or_nan (radd ar a b)"
  by (auto simp: zero_or_nan_def radd_def rnd_zero)

lemma rsum_zero_or_nan: "\<forall>v\<in>set vs. zero_or_nan v \<Longrightarrow> zero_or_nan (rsum ar vs)"
  by (induction vs) (simp_all add: radd_zero_or_nan, simp add: zero_or_nan_def)

lemma rmul_zero_right: "zero_or_nan (rmul ar v (Fin 0))"
  by (cases v) (simp_all add: zero_or_nan_def rmul_def rnd_zero)

lemma rmul_count_zero_or_nan: "zero_or_nan v \<Longrightarrow> zero_or_nan (rmul ar v (rcount ar n))"
  using rnd_count_cases[of ar n]
  by (auto simp: zero_or_nan_def rmul_def rnd_zero)

lemma rdiv_count_zero_or_nan: "zero_or_nan v \<Longrightarrow> zero_or_nan (rdiv ar v (rcount ar n))"
  using rnd_count_cases[of ar n]
  by (auto simp: zero_or_nan_def rdiv_def rnd_zero)

lemma rescale1_all_missing: "zero_or_nan v \<Longrightarrow> rescale1 ar n 0 v = NaN"
proof -
  assume "zero_or_nan v"
  then have "zero_or_nan (rmul ar v (rcount ar n))" by (rule rmul_count_zero_or_nan)
  then show ?thesis
    by (auto simp: rescale1_def zero_or_nan_def rdiv_def rcount_def rnd_zero)
qed

lemma rescale_all_missing_cfg:
  assumes "\<forall>v\<in>set vs. zero_or_nan v"
  shows "all_nan (rescale ar (reduce ar red vs) n 0)"
proof (cases red)
  case ReduceMean
  have "zero_or_nan (rdiv ar (rsum ar vs) (rcount ar (numel vs)))"
    using assms by (intro rdiv_count_zero_or_nan rsum_zero_or_nan)
  then show ?thesis using ReduceMean by (simp add: rescale1_all_missing)
next
  case ReduceSum
  have "zero_or_nan (rsum ar vs)" using assms by (rule rsum_zero_or_nan)
  then show ?thesis using ReduceSum by (simp add: rescale1_all_missing)
next
  case ReduceNone
  then show ?thesis using assms by (simp add: list_all_iff rescale1_all_missing)
qed

lemma elementwise_all_missing:
  assumes "length xs = length ts" "\<forall>t\<in>set ts. isnan t" "zero_or_nan (f (Fin 0) (Fin 0))"
  shows "\<forall>v\<in>set (map2 f (zero_at_missing ts xs) (zero_at_missing ts ts)). zero_or_nan v"
  using assms
  by (simp add: zero_at_missing_all[OF assms(1,2)] zero_at_missing_all[OF refl assms(2)]
      map2_replicate_const)

lemma all_missing_is_nan_cfg:
  assumes "\<forall>t\<in>set target. isnan t"
  shows "(\<exists>l. MSELossIPU_forward_cfg ar red input target = Inr l \<and> all_nan l)
            \<or> (\<exists>e. MSELossIPU_forward_cfg ar red input target = Inl e)"
    and "(\<exists>l. L1LossIPU_forward_cfg ar red input target = Inr l \<and> all_nan l)
            \<or> (\<exists>e. L1LossIPU_forward_cfg ar red input target = Inl e)"
proof -
  have k: "observed target = 0" using assms by (rule observed_none)
  have sq: "zero_or_nan (rsq_err ar (Fin 0) (Fin 0))"
    by (simp add: rsq_err_def rsub_def rmul_def fsub_def rnd_zero zero_or_nan_def)
  have ab: "zero_or_nan (rabs_err ar (Fin 0) (Fin 0))"
    by (simp add: rabs_err_def rsub_def fsub_def rnd_zero zero_or_nan_def)
  show "(\<exists>l. MSELossIPU_forward_cfg ar red input target = Inr l \<and> all_nan l)
            \<or> (\<exists>e. MSELossIPU_forward_cfg ar red input target = Inl e)"
  proof (cases "length input = length target")
    case True
    from elementwise_all_missing[where f = "rsq_err ar", OF True assms sq] show ?thesis
      by (simp add: MSELossIPU_forward_cfg_eval[OF True] MSELoss_forward_cfg_def k
          rescale_all_missing_cfg)
  next
    case False
    then show ?thesis by (simp add: MSELossIPU_forward_cfg_def Let_def)
  qed
  show "(\<exists>l. L1LossIPU_forward_cfg ar red input target = Inr l \<and> all_nan l)
            \<or> (\<exists>e. L1LossIPU_forward_cfg ar red input target = Inl e)"
  proof (cases "length input = length target")
    case True
    from elementwise_all_missing[where f = "rabs_err ar", OF True assms ab] show ?thesis
      by (simp add: L1LossIPU_forward_cfg_eval[OF True] L1Loss_forward_cfg_def k
          rescale_all_missing_cfg)
  next
    case False
    then show ?thesis by (simp add: L1LossIPU_forward_cfg_def Let_def)
  qed
qed


lemma BCELoss_forward_cfg_returns:
  assumes "BCELoss_forward_cfg ar red wt xs ts = Inr l"
  shows "length ts = length xs \<and> list_all in_unit xs"
  using assms
  by (auto simp: BCELoss_forward_cfg_def binary_cross_entropy_cfg_def
      split: if_splits sum.splits)

lemma BCELoss_forward_cfg_weighted:
  assumes "length ts = length xs" "length ws = length xs" "list_all in_unit xs"
  shows "BCELoss_forward_cfg ar red (Some ws) xs ts
         = Inr (reduce ar red (map2 (rmul ar) (map2 (rbce_term ar) xs ts) ws))"
  using assms
  by (simp add: BCELoss_forward_cfg_def broadcast_weight_def infer_size_def expand_def
      binary_cross_entropy_cfg_def)

lemma bce_all_missing_is_nan_cfg:
  assumes miss: "\<forall>t\<in>set target. isnan t"
    and ret: "snd (BCELossIPU_forward_cfg ar red self input target) = Inr l"
  shows "all_nan l"
proof -
  from ret obtain T W m loss where n: "BCELossIPU_neutralize self input target = Inr (T, W, m)"
      and lo: "BCELoss_forward_cfg ar red (Some W) input T = Inr loss"
      and l: "l = rescale ar loss (numel m) (count_not m)"
    by (auto simp: BCELossIPU_forward_cfg_def Let_def split: sum.splits)
  have m: "m = map isnan target" using n by (rule BCELossIPU_neutralize_mask)
  from BCELossIPU_neutralize_lengths[OF n] BCELoss_forward_cfg_returns[OF lo]
  have len: "length input = length target" and unit: "list_all in_unit input"
    and wb: "weight_broadcastable self (length target)" by simp_all
  let ?W1 = "expanded_weight self (length target)"
  have lW1: "length ?W1 = length target" using wb by (rule length_expanded_weight)
  from n BCELossIPU_neutralize_eval[OF len wb]
  have T: "T = bce_neutral_target input target" and W: "W = zero_at_missing target ?W1"
    by simp_all
  have W0: "W = replicate (length target) (Fin 0)"
    unfolding W using lW1 miss by (rule zero_at_missing_all)
  have lT: "length T = length input" using len by (simp add: T bce_neutral_target_def)
  have "loss = reduce ar red (map2 (rmul ar) (map2 (rbce_term ar) input T) W)"
    using lo BCELoss_forward_cfg_weighted[OF lT _ unit, of W ar red] len
    by (simp add: W0)
  moreover have "\<forall>v\<in>set (map2 (rmul ar) (map2 (rbce_term ar) input T) W). zero_or_nan v"
    unfolding W0 by (auto simp: set_zip rmul_zero_right)
  moreover have "count_not m = 0" using miss by (simp add: m count_not_isnan observed_none)
  ultimately show ?thesis
    unfolding l by (simp add: rescale_all_missing_cfg)
qed

section \<open>The claims on the cache of the distance engine\<close>

lemma c4_distances:
  "pairwise_distances c4 4 = Inr [[0,1,2,1],[1,0,1,2],[2,1,0,1],[1,2,1,0]]"
  by code_simp

lemma broken_distances:
  "pairwise_distances [[0,1,0],[1,0,0],[0,0,0]] 3 = Inl KeyError"
  by code_simp

text \<open>
  C2. With an entry under the key \<open>graphormer\<close> in the cache, the operation returns
  that entry, the cache and the store as they are, whatever the matrix and the node
  count. With no such entry, it computes the distance matrix, stores it under the key
  and returns it, and a later call with the cache it returned gives the same again.
\<close>

theorem cached_distances_returned:
  "(cache ''graphormer'' = Some r \<longrightarrow>
      compute_graphormer_distances h adj num_nodes cache = Inr (h, r, ''pair'', cache))
   \<and> (cache ''graphormer'' = None
        \<and> compute_graphormer_distances h adj num_nodes cache = Inr (h', r', lvl, cache') \<longrightarrow>
      pairwise_distances adj num_nodes = Inr (h' ! r')
      \<and> cache' = cache(''graphormer'' \<mapsto> r') \<and> h' = h @ [h' ! r'] \<and> lvl = ''pair''
      \<and> compute_graphormer_distances h' adj2 num_nodes2 cache' = Inr (h', r', lvl, cache'))"
  by (auto simp: compute_graphormer_distances_def Let_def split: sum.splits)

theorem cached_distances_returned_witness:
  "[''graphormer'' \<mapsto> 0::nat] ''graphormer'' = Some 0
   \<and> pairwise_distances [[0,1,0],[1,0,0],[0,0,0]] 3 = Inl KeyError
   \<and> compute_graphormer_distances [[[0,1],[1,0]]] [[0,1,0],[1,0,0],[0,0,0]] 3 [''graphormer'' \<mapsto> 0]
       = Inr ([[[0,1],[1,0]]], 0, ''pair'', [''graphormer'' \<mapsto> 0])
   \<and> (Map.empty :: string \<rightharpoonup> nat) ''graphormer'' = None
   \<and> compute_graphormer_distances [] c4 4 Map.empty
       = Inr ([[[0,1,2,1],[1,0,1,2],[2,1,0,1],[1,2,1,0]]], 0, ''pair'', [''graphormer'' \<mapsto> 0])
   \<and> compute_graphormer_distances [[[0,1,2,1],[1,0,1,2],[2,1,0,1],[1,2,1,0]]] [] 0
         [''graphormer'' \<mapsto> 0]
       = Inr ([[[0,1,2,1],[1,0,1,2],[2,1,0,1],[1,2,1,0]]], 0, ''pair'', [''graphormer'' \<mapsto> 0])"
proof -
  have run: "compute_graphormer_distances [] c4 4 Map.empty
       = Inr ([[[0,1,2,1],[1,0,1,2],[2,1,0,1],[1,2,1,0]]], 0, ''pair'', [''graphormer'' \<mapsto> 0])"
    by (simp add: compute_graphormer_distances_def c4_distances)
  show ?thesis
    using cached_distances_returned[where cache = "[''graphormer'' \<mapsto> 0]" and r = 0
        and h = "[[[0,1],[1,0]]]" and adj = "[[0,1,0],[1,0,0],[0,0,0]]" and num_nodes = 3]
      cached_distances_returned[where cache = Map.empty and h = "[]" and adj = c4
        and num_nodes = 4 and h' = "[[[0,1,2,1],[1,0,1,2],[2,1,0,1],[1,2,1,0]]]" and r' = 0
        and lvl = "''pair''" and cache' = "[''graphormer'' \<mapsto> 0]"
        and ?adj2.0 = "[]" and ?num_nodes2.0 = 0] run broken_distances
    by simp
qed

text \<open>
  C9, as the code has it: the address the operation returns is the address the cache
  holds under the key, in both branches, and the store is only extended. Writing to
  the returned matrix therefore writes to the cached one.
\<close>

theorem returned_matrix_is_cached_matrix:
  assumes "compute_graphormer_distances h adj num_nodes cache = Inr (h', r, lvl, cache')"
  shows "cache' ''graphormer'' = Some r
       \<and> take (length h) h' = h
       \<and> (\<forall>k. k \<noteq> ''graphormer'' \<longrightarrow> cache' k = cache k)"
  using assms
  by (auto simp: compute_graphormer_distances_def Let_def split: sum.splits option.splits)

theorem returned_matrix_is_cached_matrix_witness:
  "compute_graphormer_distances [] c4 4 Map.empty
       = Inr ([[[0,1,2,1],[1,0,1,2],[2,1,0,1],[1,2,1,0]]], 0, ''pair'', [''graphormer'' \<mapsto> 0])
   \<and> [''graphormer'' \<mapsto> 0::nat] ''graphormer'' = Some 0"
proof -
  have run: "compute_graphormer_distances [] c4 4 Map.empty
       = Inr ([[[0,1,2,1],[1,0,1,2],[2,1,0,1],[1,2,1,0]]], 0, ''pair'', [''graphormer'' \<mapsto> 0])"
    by (simp add: compute_graphormer_distances_def c4_distances)
  from returned_matrix_is_cached_matrix[OF run] run show ?thesis by simp
qed

text \<open>
  The claim as it is worded fails: after a call on the four-node cycle with an empty
  cache, the returned address is 0 and the cache holds address 0, so overwriting the
  returned matrix changes the matrix the cache refers to.
\<close>

theorem returned_matrix_aliases_cache:
  "compute_graphormer_distances [] c4 4 Map.empty
     = Inr ([[[0,1,2,1],[1,0,1,2],[2,1,0,1],[1,2,1,0]]], 0, ''pair'', [''graphormer'' \<mapsto> 0])
   \<and> ([[[0,1,2,1],[1,0,1,2],[2,1,0,1],[1,2,1,0]]][0 := [[0]]])
         ! the ([''graphormer'' \<mapsto> 0::nat] ''graphormer'')
       \<noteq> [[[0,1,2,1],[1,0,1,2],[2,1,0,1],[1,2,1,0::int]]]
         ! the ([''graphormer'' \<mapsto> 0::nat] ''graphormer'')"
  by (simp add: compute_graphormer_distances_def c4_distances)

section \<open>Correctness of the breadth-first search\<close>

subsection \<open>Walks\<close>

lemma hops_node: "hops A i k j \<Longrightarrow> i < length A \<and> j < length A"
  by (induction rule: hops.induct) (simp_all add: edge_def)

lemma hops_zero: "hops A i 0 j \<Longrightarrow> j = i"
  by (cases rule: hops.cases) auto

lemma hops_Suc: "hops A i (Suc k) j \<Longrightarrow> \<exists>u. hops A i k u \<and> edge A u j"
  by (cases rule: hops.cases) auto

lemma edge_sym: "edge A u v \<Longrightarrow> edge A v u"
  by (auto simp: edge_def)

lemma hops_prepend: "hops A u k j \<Longrightarrow> edge A i u \<Longrightarrow> hops A i (Suc k) j"
proof (induction rule: hops.induct)
  case hops_here
  have "hops A i 0 i" using hops_here.prems by (simp add: edge_def hops.hops_here)
  then show ?case using hops_here.prems by (rule hops.hops_step)
next
  case (hops_step k u' v)
  then show ?case by (auto intro: hops.hops_step)
qed

lemma hops_rev: "hops A i k j \<Longrightarrow> hops A j k i"
proof (induction rule: hops.induct)
  case hops_here
  then show ?case by (rule hops.hops_here)
next
  case (hops_step k u v)
  from hops_step.IH edge_sym[OF hops_step.hyps(2)] show ?case by (rule hops_prepend)
qed

lemma shortest_sym: "shortest A i j k \<Longrightarrow> shortest A j i k"
  by (auto simp: shortest_def dest: hops_rev)

lemma shortest_unique: "shortest A i j k \<Longrightarrow> shortest A i j k' \<Longrightarrow> k = k'"
  by (auto simp: shortest_def intro: le_antisym)

lemma shortest_self: "shortest A i i k \<Longrightarrow> k = 0"
  using hops_node[of A i k i] by (auto simp: shortest_def dest: hops.hops_here)

subsection \<open>The graph of a matrix\<close>

lemma from_numpy_array_square:
  assumes "\<forall>row\<in>set A. length row = length A"
  shows "\<exists>G. from_numpy_array A = Inr G \<and> length G = length A
             \<and> (\<forall>u<length A. set (G ! u) = {v. edge A u v})"
  using assms by (auto simp: from_numpy_array_def edge_def)

subsection \<open>One round of the search\<close>

lemma visit_nbrs_cover:
  "visit_nbrs ws pv (P, nl) = (P', nl') \<Longrightarrow> x \<in> set ws \<Longrightarrow> P' x \<noteq> None"
proof (induction ws arbitrary: P nl)
  case Nil
  then show ?case by simp
next
  case (Cons w ws)
  obtain P1 nl1 where s: "(case P w of None \<Rightarrow> (P(w \<mapsto> pv @ [w]), nl @ [w]) | Some _ \<Rightarrow> (P, nl)) = (P1, nl1)"
    by (cases "case P w of None \<Rightarrow> (P(w \<mapsto> pv @ [w]), nl @ [w]) | Some _ \<Rightarrow> (P, nl)")
  with Cons.prems have r: "visit_nbrs ws pv (P1, nl1) = (P', nl')" by simp
  show ?case
  proof (cases "x = w")
    case True
    have "P1 w \<noteq> None" using s by (cases "P w") auto
    then show ?thesis using visit_nbrs_mono[OF r, of w] True by simp
  next
    case False
    with Cons.prems have "x \<in> set ws" by simp
    then show ?thesis using Cons.IH[OF r] by simp
  qed
qed

lemma visit_nbrs_path:
  "visit_nbrs ws pv (P, nl) = (P', nl') \<Longrightarrow> P x = None \<Longrightarrow> P' x = Some q \<Longrightarrow>
   x \<in> set ws \<and> q = pv @ [x]"
proof (induction ws arbitrary: P nl)
  case Nil
  then show ?case by simp
next
  case (Cons w ws)
  show ?case
  proof (cases "P w")
    case None
    with Cons.prems have r: "visit_nbrs ws pv (P(w \<mapsto> pv @ [w]), nl @ [w]) = (P', nl')" by simp
    show ?thesis
    proof (cases "x = w")
      case True
      then have "P' x = Some (pv @ [x])" using visit_nbrs_mono[OF r, of w] by simp
      with Cons.prems(3) True show ?thesis by simp
    next
      case False
      with Cons.IH[OF r _ Cons.prems(3)] Cons.prems(2) show ?thesis by simp
    qed
  next
    case (Some a)
    with Cons.prems have r: "visit_nbrs ws pv (P, nl) = (P', nl')" by simp
    from Cons.IH[OF r Cons.prems(2,3)] show ?thesis by simp
  qed
qed

lemma visit_level_cover:
  "visit_level G vs (P, nl) = Inr (P', nl') \<Longrightarrow> v \<in> set vs \<Longrightarrow> x \<in> set (G ! v) \<Longrightarrow>
   P' x \<noteq> None"
proof (induction vs arbitrary: P nl)
  case Nil
  then show ?case by simp
next
  case (Cons u vs)
  from Cons.prems(1) obtain pu where pu: "P u = Some pu" and u: "u < length G"
    by (auto split: if_splits option.splits)
  obtain P1 nl1 where s: "visit_nbrs (G ! u) pu (P, nl) = (P1, nl1)"
    by (cases "visit_nbrs (G ! u) pu (P, nl)")
  with Cons.prems pu u have r: "visit_level G vs (P1, nl1) = Inr (P', nl')" by simp
  show ?case
  proof (cases "v = u")
    case True
    with Cons.prems(3) have "P1 x \<noteq> None" using visit_nbrs_cover[OF s] by simp
    then show ?thesis using visit_level_mono[OF r, of x] by simp
  next
    case False
    with Cons.prems(2) have "v \<in> set vs" by simp
    then show ?thesis using Cons.IH[OF r _ Cons.prems(3)] by simp
  qed
qed

lemma visit_level_path:
  "visit_level G vs (P, nl) = Inr (P', nl') \<Longrightarrow> \<forall>v\<in>set vs. P v \<noteq> None \<Longrightarrow>
   P x = None \<Longrightarrow> P' x = Some q \<Longrightarrow>
   \<exists>v\<in>set vs. \<exists>pv. P v = Some pv \<and> x \<in> set (G ! v) \<and> q = pv @ [x]"
proof (induction vs arbitrary: P nl)
  case Nil
  then show ?case by simp
next
  case (Cons u vs)
  from Cons.prems(1) obtain pu where pu: "P u = Some pu" and u: "u < length G"
    by (auto split: if_splits option.splits)
  obtain P1 nl1 where s: "visit_nbrs (G ! u) pu (P, nl) = (P1, nl1)"
    by (cases "visit_nbrs (G ! u) pu (P, nl)")
  with Cons.prems pu u have r: "visit_level G vs (P1, nl1) = Inr (P', nl')" by simp
  have keep: "P1 v = P v" if "P v \<noteq> None" for v using visit_nbrs_mono[OF s that] .
  show ?case
  proof (cases "P1 x")
    case None
    have "\<forall>v\<in>set vs. P1 v \<noteq> None" using Cons.prems(2) keep by simp
    from Cons.IH[OF r this None Cons.prems(4)]
    obtain v pv where v: "v \<in> set vs" "P1 v = Some pv" "x \<in> set (G ! v)" "q = pv @ [x]"
      by blast
    have "P v = Some pv" using keep[of v] Cons.prems(2) v(1,2) by simp
    with v show ?thesis by auto
  next
    case (Some q1)
    from visit_nbrs_path[OF s Cons.prems(3) Some] have "x \<in> set (G ! u)" "q1 = pu @ [x]"
      by simp_all
    moreover have "P' x = Some q1" using visit_level_mono[OF r, of x] Some by simp
    ultimately show ?thesis using pu Cons.prems(4) by auto
  qed
qed

lemma visit_level_returns:
  "\<forall>v\<in>set vs. v < length G \<and> P v \<noteq> None \<Longrightarrow> \<exists>r. visit_level G vs (P, nl) = Inr r"
proof (induction vs arbitrary: P nl)
  case Nil
  then show ?case by simp
next
  case (Cons u vs)
  then obtain pu where pu: "P u = Some pu" and u: "u < length G" by auto
  obtain P1 nl1 where s: "visit_nbrs (G ! u) pu (P, nl) = (P1, nl1)"
    by (cases "visit_nbrs (G ! u) pu (P, nl)")
  have "\<forall>v\<in>set vs. v < length G \<and> P1 v \<noteq> None"
    using Cons.prems visit_nbrs_mono[OF s] by simp
  from Cons.IH[OF this] pu u s show ?case by simp
qed

subsection \<open>The invariant of the search\<close>

lemma bfs_inv_init:
  assumes "s < length A"
  shows "bfs_inv A s 0 [s \<mapsto> [s]] [s]"
  unfolding bfs_inv_def
proof (intro conjI allI impI)
  fix v p assume "[s \<mapsto> [s]] v = Some p"
  then have vp: "v = s" "p = [s]" by (auto split: if_splits)
  show "p \<noteq> []" "length p \<le> 0 + 1" using vp by simp_all
  show "hops A s (length p - 1) v" using vp assms by (simp add: hops.hops_here)
  show "length p \<le> k + 1" for k using vp by simp
next
  show "set [s] = {v. \<exists>p. [s \<mapsto> [s]] v = Some p \<and> length p = 0 + 1}"
    by (auto split: if_splits)
next
  fix k v assume "hops A s k v \<and> k \<le> 0"
  then have "v = s" using hops_zero by auto
  then show "[s \<mapsto> [s]] v \<noteq> None" by simp
qed

lemma bfs_inv_frontier:
  assumes "bfs_inv A s L P F" "graph_of A G"
  shows "\<forall>v\<in>set F. v < length G \<and> P v \<noteq> None"
proof
  fix v assume "v \<in> set F"
  with assms(1) obtain p where p: "P v = Some p" by (auto simp: bfs_inv_def)
  with assms(1) have "hops A s (length p - 1) v" by (auto simp: bfs_inv_def)
  then have "v < length A" using hops_node by blast
  with p assms(2) show "v < length G \<and> P v \<noteq> None" by (simp add: graph_of_def)
qed

lemma bfs_inv_step:
  assumes inv: "bfs_inv A s L P F" and G: "graph_of A G"
    and r: "visit_level G F (P, []) = Inr (P', F')"
  shows "bfs_inv A s (Suc L) P' F'"
proof -
  have old: "p \<noteq> []" "length p \<le> L + 1" "hops A s (length p - 1) v"
      "\<And>k. hops A s k v \<Longrightarrow> length p \<le> k + 1"
    if "P v = Some p" for v p
    using inv that by (auto simp: bfs_inv_def)
  have front: "set F = {v. \<exists>p. P v = Some p \<and> length p = L + 1}"
    using inv by (simp add: bfs_inv_def)
  have cover: "P v \<noteq> None" if "hops A s k v" "k \<le> L" for k v
    using inv that by (auto simp: bfs_inv_def)
  have keep: "P' v = P v" if "P v \<noteq> None" for v using visit_level_mono[OF r that] .
  have fr: "\<forall>v\<in>set F. P v \<noteq> None" using bfs_inv_frontier[OF inv G] by simp
  have nbr: "x \<in> set (G ! u) \<longleftrightarrow> edge A u x" if "u < length A" for u x
    using G that by (simp add: graph_of_def)
  have new: "length q = L + 2 \<and> hops A s (Suc L) x"
    if n: "P x = None" and q: "P' x = Some q" for x q
  proof -
    from visit_level_path[OF r fr n q]
    obtain u pu where u: "u \<in> set F" "P u = Some pu" "x \<in> set (G ! u)" "q = pu @ [x]"
      by blast
    have lu: "length pu = L + 1" using u(1,2) front by auto
    have hu: "hops A s L u" using old(3)[OF u(2)] lu by simp
    have "edge A u x" using nbr[of u x] hops_node[OF hu] u(3) by simp
    with hu have "hops A s (Suc L) x" by (rule hops.hops_step)
    with u(4) lu show ?thesis by simp
  qed
  have far: "L < k" if "P x = None" "hops A s k x" for x k
    using cover[of k x] that by (cases "k \<le> L") auto
  show ?thesis
    unfolding bfs_inv_def
  proof (intro conjI allI impI)
    fix v p assume p: "P' v = Some p"
    show "p \<noteq> []"
      using old(1)[of v p] keep[of v] new[of v p] p by (cases "P v") auto
    show "length p \<le> Suc L + 1"
      using old(2)[of v p] keep[of v] new[of v p] p by (cases "P v") auto
    show "hops A s (length p - 1) v"
      using old(3)[of v p] keep[of v] new[of v p] p by (cases "P v") auto
    show "length p \<le> k + 1" if "hops A s k v" for k
    proof (cases "P v")
      case None
      from far[OF None that] new[OF None p] show ?thesis by simp
    next
      case (Some a)
      with keep[of v] p have "P v = Some p" by simp
      from old(4)[OF this that] show ?thesis .
    qed
  next
    show "set F' = {v. \<exists>p. P' v = Some p \<and> length p = Suc L + 1}"
    proof (intro set_eqI iffI)
      fix x assume "x \<in> set F'"
      then have "P x = None" "P' x \<noteq> None" using visit_level_new[OF r] by auto
      then obtain q where "P' x = Some q" by auto
      with new[OF \<open>P x = None\<close> this] show "x \<in> {v. \<exists>p. P' v = Some p \<and> length p = Suc L + 1}"
        by simp
    next
      fix x assume "x \<in> {v. \<exists>p. P' v = Some p \<and> length p = Suc L + 1}"
      then obtain p where p: "P' x = Some p" "length p = Suc L + 1" by auto
      have "P x = None"
      proof (cases "P x")
        case (Some a)
        with keep[of x] p(1) have "P x = Some p" by simp
        from old(2)[OF this] p(2) show ?thesis by simp
      qed simp
      with p(1) show "x \<in> set F'" using visit_level_new[OF r] by auto
    qed
  next
    fix k v assume kv: "hops A s k v \<and> k \<le> Suc L"
    show "P' v \<noteq> None"
    proof (cases "k \<le> L")
      case True
      with kv cover[of k v] keep[of v] show ?thesis by auto
    next
      case False
      with kv have k: "k = Suc L" by simp
      with kv obtain u where u: "hops A s L u" "edge A u v" using hops_Suc by blast
      from cover[OF u(1)] obtain pu where pu: "P u = Some pu" by auto
      have ul: "u < length A" using hops_node[OF u(1)] by simp
      show ?thesis
      proof (cases "length pu = L + 1")
        case True
        with pu front have "u \<in> set F" by auto
        moreover have "v \<in> set (G ! u)" using nbr[OF ul] u(2) by simp
        ultimately show ?thesis using visit_level_cover[OF r] by blast
      next
        case False
        with old(2)[OF pu] have "length pu \<le> L" by simp
        moreover have "hops A s (Suc (length pu - 1)) v"
          using old(3)[OF pu] u(2) by (rule hops.hops_step)
        then have "hops A s (length pu) v" using old(1)[OF pu] by (cases pu) simp_all
        ultimately have "P v \<noteq> None" using cover by blast
        with keep[of v] show ?thesis by simp
      qed
    qed
  qed
qed

lemma bfs_inv_done:
  assumes inv: "bfs_inv A s L P []" and h: "hops A s k v"
  shows "P v \<noteq> None"
  using h
proof (induction rule: hops.induct)
  case hops_here
  then have "hops A s 0 s" by (rule hops.hops_here)
  with inv show ?case by (auto simp: bfs_inv_def)
next
  case (hops_step k u v)
  then obtain pu where pu: "P u = Some pu" by auto
  with inv have ne: "pu \<noteq> []" and l: "length pu \<le> L + 1"
    and hu: "hops A s (length pu - 1) u" by (auto simp: bfs_inv_def)
  have "length pu \<noteq> L + 1" using inv pu by (auto simp: bfs_inv_def)
  with l have "length pu \<le> L" by simp
  moreover have "hops A s (Suc (length pu - 1)) v"
    using hu hops_step.hyps(2) by (rule hops.hops_step)
  then have "hops A s (length pu) v" using ne by (cases pu) simp_all
  ultimately show ?case using inv by (auto simp: bfs_inv_def)
qed

lemma single_shortest_path_correct:
  assumes "bfs_inv A s L P F" "graph_of A G"
  shows "\<exists>Pf. single_shortest_path G P F = Inr Pf
             \<and> (\<forall>k v. hops A s k v \<longrightarrow> Pf v \<noteq> None)
             \<and> (\<forall>v p. Pf v = Some p \<longrightarrow> p \<noteq> [] \<and> shortest A s v (length p - 1))"
  using assms
proof (induction G P F arbitrary: L rule: single_shortest_path.induct)
  case (1 G P F)
  show ?case
  proof (cases "F = []")
    case True
    have "shortest A s v (length p - 1)" "p \<noteq> []" if p: "P v = Some p" for v p
    proof -
      from "1.prems"(1) p have a: "p \<noteq> []" "hops A s (length p - 1) v"
        "\<And>k. hops A s k v \<Longrightarrow> length p \<le> k + 1"
        by (auto simp: bfs_inv_def)
      show "p \<noteq> []" by fact
      have "length p - 1 \<le> k" if "hops A s k v" for k using a(3)[OF that] by simp
      with a(2) show "shortest A s v (length p - 1)" by (simp add: shortest_def)
    qed
    moreover have "P v \<noteq> None" if "hops A s k v" for k v
      using "1.prems"(1) that unfolding True by (rule bfs_inv_done)
    ultimately show ?thesis using True by auto
  next
    case False
    from visit_level_returns[OF bfs_inv_frontier[OF "1.prems"], of "[]"]
    obtain P' F' where r: "visit_level G F (P, []) = Inr (P', F')" by auto
    have "bfs_inv A s (Suc L) P' F'" using "1.prems" r by (rule bfs_inv_step)
    from "1.IH"[OF False r refl this "1.prems"(2)] r False show ?thesis by simp
  qed
qed

lemma single_source_shortest_path_correct:
  assumes "graph_of A G" "s < length A"
  shows "\<exists>Pf. single_source_shortest_path G s = Inr Pf
             \<and> (\<forall>k v. hops A s k v \<longrightarrow> Pf v \<noteq> None)
             \<and> (\<forall>v p. Pf v = Some p \<longrightarrow> p \<noteq> [] \<and> shortest A s v (length p - 1))"
  unfolding single_source_shortest_path_def
  using bfs_inv_init[OF assms(2)] assms(1) by (rule single_shortest_path_correct)

subsection \<open>The matrix of the path lengths\<close>

lemma sequence_sum_map:
  "(\<And>x. x \<in> set xs \<Longrightarrow> f x = Inr (g x)) \<Longrightarrow> sequence_sum (map f xs) = Inr (map g xs)"
  by (induction xs) simp_all

lemma dist_dict_of_eval:
  assumes "\<And>i. i < length G \<Longrightarrow> single_source_shortest_path G i = Inr (Pf i)"
  shows "dist_dict_of G = Inr (map (\<lambda>i. path_lengths (Pf i)) [0..<length G])"
  unfolding dist_dict_of_def
  by (rule sequence_sum_map) (simp add: assms)

lemma lookup2_found:
  "i < length dd \<Longrightarrow> (dd ! i) j = Some d \<Longrightarrow> lookup2 dd i j = Inr d"
  by (simp add: lookup2_def)

lemma dist_matrix_eval:
  assumes cells: "\<And>i j. i < n \<Longrightarrow> j < n \<Longrightarrow> (dd ! i) j = Some (D i j)"
    and n: "n \<le> length dd"
  shows "dist_matrix dd (int n) = Inr (map (\<lambda>i. map (\<lambda>j. D i j) [0..<n]) [0..<n])"
proof -
  have cell: "lookup2 dd i j = Inr (D i j)" if "i < n" "j < n" for i j
    using cells[OF that] that(1) n by (intro lookup2_found) simp_all
  have row: "sequence_sum (map (\<lambda>j. lookup2 dd i j) [0..<n]) = Inr (map (\<lambda>j. D i j) [0..<n])"
    if i: "i < n" for i
    by (rule sequence_sum_map) (simp add: cell[OF i])
  show ?thesis
    unfolding dist_matrix_def nat_int
    by (rule sequence_sum_map) (simp add: row)
qed

lemma pairwise_distances_correct:
  assumes sq: "\<forall>row\<in>set adj. length row = length adj" and conn: "connected adj"
  shows "\<exists>d. pairwise_distances adj (int (length adj)) = Inr d \<and> length d = length adj
           \<and> (\<forall>i<length adj. length (d ! i) = length adj
                 \<and> (\<forall>j<length adj. \<exists>k. d ! i ! j = int k \<and> shortest adj i j k))"
proof -
  let ?n = "length adj"
  from from_numpy_array_square[OF sq] obtain G where G: "from_numpy_array adj = Inr G"
      and gr: "graph_of adj G" unfolding graph_of_def by blast
  have lG: "length G = ?n" using gr by (simp add: graph_of_def)
  define Pf where "Pf i = projr (single_source_shortest_path G i)" for i
  have src: "single_source_shortest_path G i = Inr (Pf i)"
    and reach: "\<And>k v. hops adj i k v \<Longrightarrow> Pf i v \<noteq> None"
    and short: "\<And>v p. Pf i v = Some p \<Longrightarrow> p \<noteq> [] \<and> shortest adj i v (length p - 1)"
    if i: "i < ?n" for i
  proof -
    from single_source_shortest_path_correct[OF gr i]
    obtain Q where Q: "single_source_shortest_path G i = Inr Q"
        "\<forall>k v. hops adj i k v \<longrightarrow> Q v \<noteq> None"
        "\<forall>v p. Q v = Some p \<longrightarrow> p \<noteq> [] \<and> shortest adj i v (length p - 1)"
      by blast
    have e: "Pf i = Q" using Q(1) by (simp add: Pf_def)
    show "single_source_shortest_path G i = Inr (Pf i)" using Q(1) e by simp
    show "Pf i v \<noteq> None" if "hops adj i k v" for k v using Q(2) that e by blast
    show "p \<noteq> [] \<and> shortest adj i v (length p - 1)" if "Pf i v = Some p" for v p
      using Q(3) that e by blast
  qed
  define D where "D i j = int (length (the (Pf i j))) - 1" for i j
  define dd where "dd = map (\<lambda>i. path_lengths (Pf i)) [0..<length G]"
  define M where "M = map (\<lambda>i. map (\<lambda>j. D i j) [0..<?n]) [0..<?n]"
  have dd: "dist_dict_of G = Inr dd"
    unfolding dd_def by (rule dist_dict_of_eval) (simp add: src lG)
  have found: "\<exists>p. Pf i j = Some p" if "i < ?n" "j < ?n" for i j
  proof -
    from conn that obtain k where "hops adj i k j" unfolding connected_def by blast
    from reach[OF that(1) this] show ?thesis by (cases "Pf i j") simp_all
  qed
  have cells: "(dd ! i) j = Some (D i j)" if "i < ?n" "j < ?n" for i j
  proof -
    from found[OF that] obtain p where p: "Pf i j = Some p" by blast
    have "dd ! i = path_lengths (Pf i)" using that(1) lG by (simp add: dd_def)
    then show ?thesis using p by (simp add: path_lengths_def D_def)
  qed
  have ldd: "?n \<le> length dd" by (simp add: dd_def lG)
  have Meq: "dist_matrix dd (int ?n) = Inr M"
    unfolding M_def using cells ldd by (rule dist_matrix_eval)
  have res: "pairwise_distances adj (int ?n) = Inr M"
    by (simp add: pairwise_distances_def G dd Meq)
  have lenM: "length M = ?n" by (simp add: M_def)
  have rowlen: "length (M ! i) = ?n" if "i < ?n" for i using that by (simp add: M_def)
  have entry: "\<exists>k. M ! i ! j = int k \<and> shortest adj i j k" if i: "i < ?n" and j: "j < ?n" for i j
  proof -
    from found[OF i j] obtain p where p: "Pf i j = Some p" by blast
    from short[OF i p] have ne: "p \<noteq> []" and s: "shortest adj i j (length p - 1)"
      by blast+
    have "M ! i ! j = D i j" using i j by (simp add: M_def)
    also have "\<dots> = int (length p) - 1" using p by (simp add: D_def)
    also have "\<dots> = int (length p - 1)" using ne by (cases p) simp_all
    finally show ?thesis using s by blast
  qed
  show ?thesis
  proof (intro exI[of _ M] conjI allI impI)
    show "pairwise_distances adj (int ?n) = Inr M" by (rule res)
    show "length M = ?n" by (rule lenM)
    show "length (M ! i) = ?n" if "i < ?n" for i using that by (rule rowlen)
    show "\<exists>k. M ! i ! j = int k \<and> shortest adj i j k" if "i < ?n" "j < ?n" for i j
      using that by (rule entry)
  qed
qed

section \<open>The claim on the distances\<close>

lemma c4_edge: "u < 4 \<Longrightarrow> edge c4 u (Suc u mod 4)"
proof -
  assume "u < 4"
  then consider "u = 0" | "u = 1" | "u = 2" | "u = 3" by linarith
  then show ?thesis by cases (simp_all add: edge_def c4_def)
qed

lemma c4_hops: "i < 4 \<Longrightarrow> hops c4 i m ((i + m) mod 4)"
proof (induction m)
  case 0
  then show ?case by (simp add: hops.hops_here c4_def)
next
  case (Suc m)
  have "edge c4 ((i + m) mod 4) (Suc ((i + m) mod 4) mod 4)" by (rule c4_edge) simp
  with Suc show ?case using hops.hops_step[of c4 i m "(i + m) mod 4" "(i + Suc m) mod 4"]
    by (simp add: mod_Suc_eq)
qed

lemma c4_connected: "connected c4"
  unfolding connected_def
proof (intro allI impI)
  fix i j assume "i < length c4" "j < length c4"
  then have i: "i < 4" and j: "j < 4" by (simp_all add: c4_def)
  have "(i + (j + 4 - i)) mod 4 = j" using i j by simp
  with c4_hops[OF i, of "j + 4 - i"] show "\<exists>k. hops c4 i k j" by auto
qed

text \<open>
  C3. For a connected graph given as a square matrix with \<open>num_nodes\<close> rows, the
  operation computes, and on a cache miss returns, a square matrix of that size whose
  entry \<open>(i, j)\<close> is the number of edges on a shortest path between \<open>i\<close> and \<open>j\<close>; the
  matrix is symmetric and its diagonal is zero.
\<close>

theorem distances_are_shortest_paths:
  assumes "\<forall>row\<in>set adj. length row = length adj" and "num_nodes = int (length adj)"
    and "connected adj"
  shows "\<exists>d. pairwise_distances adj num_nodes = Inr d
           \<and> (cache ''graphormer'' = None \<longrightarrow>
                compute_graphormer_distances h adj num_nodes cache
                  = Inr (h @ [d], length h, ''pair'', cache(''graphormer'' \<mapsto> length h)))
           \<and> length d = length adj
           \<and> (\<forall>i<length adj. length (d ! i) = length adj \<and> d ! i ! i = 0
                 \<and> (\<forall>j<length adj. d ! i ! j = d ! j ! i
                       \<and> (\<exists>k. d ! i ! j = int k \<and> shortest adj i j k)))"
proof -
  from pairwise_distances_correct[OF assms(1,3)] assms(2)
  obtain d where d: "pairwise_distances adj num_nodes = Inr d" "length d = length adj"
      and rows: "\<And>i. i < length adj \<Longrightarrow> length (d ! i) = length adj"
      and sp: "\<And>i j. i < length adj \<Longrightarrow> j < length adj \<Longrightarrow>
                 \<exists>k. d ! i ! j = int k \<and> shortest adj i j k"
    by blast
  have diag: "d ! i ! i = 0" if "i < length adj" for i
  proof -
    from sp[OF that that] obtain k where "d ! i ! i = int k" "shortest adj i i k" by blast
    with shortest_self[of adj i k] show ?thesis by simp
  qed
  have sym: "d ! i ! j = d ! j ! i" if "i < length adj" "j < length adj" for i j
  proof -
    from sp[OF that] obtain k where k: "d ! i ! j = int k" "shortest adj i j k" by blast
    from sp[OF that(2,1)] obtain k' where k': "d ! j ! i = int k'" "shortest adj j i k'" by blast
    from shortest_unique[OF shortest_sym[OF k(2)] k'(2)] k(1) k'(1) show ?thesis by simp
  qed
  have run: "compute_graphormer_distances h adj num_nodes cache
               = Inr (h @ [d], length h, ''pair'', cache(''graphormer'' \<mapsto> length h))"
    if "cache ''graphormer'' = None"
    using that d(1) by (simp add: compute_graphormer_distances_def Let_def)
  show ?thesis
  proof (intro exI[of _ d] conjI allI impI)
    show "pairwise_distances adj num_nodes = Inr d" by (rule d(1))
    show "length d = length adj" by (rule d(2))
    show "compute_graphormer_distances h adj num_nodes cache
            = Inr (h @ [d], length h, ''pair'', cache(''graphormer'' \<mapsto> length h))"
      if "cache ''graphormer'' = None" using that by (rule run)
    show "length (d ! i) = length adj" if "i < length adj" for i using that by (rule rows)
    show "d ! i ! i = 0" if "i < length adj" for i using that by (rule diag)
    show "d ! i ! j = d ! j ! i" if "i < length adj" "j < length adj" for i j
      using that by (rule sym)
    show "\<exists>k. d ! i ! j = int k \<and> shortest adj i j k" if "i < length adj" "j < length adj" for i j
      using that by (rule sp)
  qed
qed

theorem distances_are_shortest_paths_witness:
  "list_all (\<lambda>row. length row = length c4) c4 \<and> length c4 = 4 \<and> connected c4
   \<and> pairwise_distances c4 4 = Inr [[0,1,2,1],[1,0,1,2],[2,1,0,1],[1,2,1,0]]
   \<and> shortest c4 0 2 2 \<and> shortest c4 1 3 2 \<and> shortest c4 0 1 1 \<and> shortest c4 0 0 0"
proof -
  have sq: "\<forall>row\<in>set c4. length row = length c4" by (simp add: c4_def)
  have n: "(4::int) = int (length c4)" by (simp add: c4_def)
  let ?M = "[[0,1,2,1],[1,0,1,2],[2,1,0,1],[1,2,1,0::int]]"
  from distances_are_shortest_paths[OF sq n c4_connected] c4_distances
  have sp: "\<forall>i<length c4. \<forall>j<length c4. \<exists>k. ?M ! i ! j = int k \<and> shortest c4 i j k"
    by auto
  have l: "length c4 = 4" by (simp add: c4_def)
  have "shortest c4 i j k" if "i < 4" "j < 4" "?M ! i ! j = int k" for i j k
  proof -
    from sp that(1,2) l have "\<exists>k'. ?M ! i ! j = int k' \<and> shortest c4 i j k'" by metis
    then obtain k' where "?M ! i ! j = int k'" "shortest c4 i j k'" by blast
    with that(3) show ?thesis by simp
  qed
  from this[of 0 2 2] this[of 1 3 2] this[of 0 1 1] this[of 0 0 0]
  have "shortest c4 0 2 2" "shortest c4 1 3 2" "shortest c4 0 1 1" "shortest c4 0 0 0"
    by simp_all
  moreover have "list_all (\<lambda>row. length row = length c4) c4" by (simp add: c4_def)
  ultimately show ?thesis using l c4_connected c4_distances by simp
qed

end
